theory Spec2Isabelle
  imports Main "HOL-Library.Sublist"
begin

section \<open>Strings\<close>

text \<open>
  A Python \<open>str\<close> is a sequence of Unicode code points; a code point is a natural
  number. A JavaScript string handed back by \<open>page.evaluate\<close> is read the same way,
  with \<open>js_length\<close> counting its UTF-16 code units. \<open>asc\<close> turns an ASCII literal
  into such a string.
\<close>

type_synonym codepoint = nat
type_synonym ustr = "codepoint list"

definition asc :: "string \<Rightarrow> ustr" where
  "asc s = map of_char s"

section \<open>Resolution checks\<close>

text \<open>
  \<open>validate_resolution\<close> of \<open>utils/helpers.py\<close>: two chained comparisons joined by
  \<open>and\<close>. Python's \<open>a <= b <= c\<close> is \<open>a <= b and b <= c\<close>.
\<close>

definition validate_resolution :: "int \<Rightarrow> int \<Rightarrow> int \<times> int \<Rightarrow> int \<times> int \<Rightarrow> bool" where
  "validate_resolution width height min_resolution max_resolution =
     ((fst min_resolution \<le> width \<and> width \<le> fst max_resolution) \<and>
      (snd min_resolution \<le> height \<and> height \<le> snd max_resolution))"

text \<open>
  \<open>check_if_image_resolution_valid\<close> of \<open>GoogleImageScraper.py\<close> reads \<open>image.size\<close>,
  tests the tuple for truth (a tuple is true when it is not empty) and then compares
  the four bounds in the order of the source. \<open>tuple_truthy\<close> is that truth test on
  the components of the tuple.
\<close>

definition tuple_truthy :: "int list \<Rightarrow> bool" where
  "tuple_truthy t = (length t \<noteq> 0)"

definition check_if_image_resolution_valid :: "int \<times> int \<Rightarrow> int \<times> int \<Rightarrow> int \<times> int \<Rightarrow> bool" where
  "check_if_image_resolution_valid image_size min_resolution max_resolution =
     (let image_resolution = image_size in
      if tuple_truthy [fst image_resolution, snd image_resolution] then
        (if fst image_resolution \<ge> fst min_resolution \<and>
            fst image_resolution \<le> fst max_resolution \<and>
            snd image_resolution \<ge> snd min_resolution \<and>
            snd image_resolution \<le> snd max_resolution
         then True else False)
      else False)"

section \<open>Normalization of a URL\<close>

text \<open>
  \<open>decode_url\<close> of \<open>utils/helpers.py\<close> (and the same three lines inside the loop of
  \<open>find_image_urls\<close>) runs \<open>url.encode('utf-8').decode('unicode_escape')\<close> and then
  \<open>urllib.parse.unquote\<close>, and returns the URL itself when any of them raises. The
  three library functions are modelled after CPython: \<open>utf8_encode\<close> (strict: a lone
  surrogate raises), \<open>unicode_escape_decode\<close> (every byte is a Latin-1 code point, a
  backslash starts an escape, a malformed escape raises) and \<open>unquote\<close> (each maximal
  ASCII run is percent-decoded to bytes and those bytes are read back as UTF-8 with
  the \<open>replace\<close> error handler, so it never raises). Bytes are natural numbers
  below 256.
\<close>

datatype codec_error = UnicodeEncodeError | UnicodeDecodeError

definition emit :: "ustr \<Rightarrow> codec_error + ustr \<Rightarrow> codec_error + ustr" where
  "emit cs r = (case r of Inl e \<Rightarrow> Inl e | Inr v \<Rightarrow> Inr (cs @ v))"

definition utf8_encode_cp :: "codepoint \<Rightarrow> codec_error + nat list" where
  "utf8_encode_cp c =
     (if c < 0x80 then Inr [c]
      else if c < 0x800 then Inr [0xC0 + c div 64, 0x80 + c mod 64]
      else if 0xD800 \<le> c \<and> c \<le> 0xDFFF then Inl UnicodeEncodeError
      else if c < 0x10000 then Inr [0xE0 + c div 4096, 0x80 + c div 64 mod 64, 0x80 + c mod 64]
      else if c \<le> 0x10FFFF then
        Inr [0xF0 + c div 262144, 0x80 + c div 4096 mod 64, 0x80 + c div 64 mod 64, 0x80 + c mod 64]
      else Inl UnicodeEncodeError)"

fun utf8_encode :: "ustr \<Rightarrow> codec_error + nat list" where
  "utf8_encode [] = Inr []"
| "utf8_encode (c # s) =
     (case utf8_encode_cp c of Inl e \<Rightarrow> Inl e
      | Inr bs \<Rightarrow> (case utf8_encode s of Inl e \<Rightarrow> Inl e | Inr rest \<Rightarrow> Inr (bs @ rest)))"

definition hex_val :: "nat \<Rightarrow> nat option" where
  "hex_val c =
     (if 48 \<le> c \<and> c \<le> 57 then Some (c - 48)
      else if 97 \<le> c \<and> c \<le> 102 then Some (c - 87)
      else if 65 \<le> c \<and> c \<le> 70 then Some (c - 55)
      else None)"

definition hex_digits :: "nat \<Rightarrow> nat list \<Rightarrow> nat option" where
  "hex_digits count s =
     (if length s < count \<or> \<not> list_all (\<lambda>c. hex_val c \<noteq> None) (take count s) then None
      else Some (foldl (\<lambda>ch c. ch * 16 + the (hex_val c)) 0 (take count s)))"

definition hex_count :: "nat \<Rightarrow> nat" where
  "hex_count e = (if e = 120 then 2 else if e = 117 then 4 else 8)"

definition is_octal :: "nat \<Rightarrow> bool" where
  "is_octal c = (48 \<le> c \<and> c \<le> 55)"

definition name_table :: "nat list \<Rightarrow> codepoint option" where
  "name_table = (SOME t. True)"

definition name_char :: "nat \<Rightarrow> bool" where
  "name_char c = ((65 \<le> c \<and> c \<le> 90) \<or> (97 \<le> c \<and> c \<le> 122) \<or> (48 \<le> c \<and> c \<le> 57) \<or> c = 32 \<or> c = 45)"

definition getcode :: "nat list \<Rightarrow> codepoint option" where
  "getcode name = (if list_all name_char name then name_table name else None)"

definition escape :: "nat list \<Rightarrow> codec_error + (ustr \<times> nat)" where
  "escape s =
     (case s of
        [] \<Rightarrow> Inl UnicodeDecodeError
      | e # t \<Rightarrow>
          if e = 10 then Inr ([], 1)
          else if e = 92 then Inr ([92], 1)
          else if e = 39 then Inr ([39], 1)
          else if e = 34 then Inr ([34], 1)
          else if e = 98 then Inr ([8], 1)
          else if e = 102 then Inr ([12], 1)
          else if e = 116 then Inr ([9], 1)
          else if e = 110 then Inr ([10], 1)
          else if e = 114 then Inr ([13], 1)
          else if e = 118 then Inr ([11], 1)
          else if e = 97 then Inr ([7], 1)
          else if is_octal e then
            (let n = length (takeWhile is_octal (take 2 t)) in
             Inr ([foldl (\<lambda>ch d. ch * 8 + (d - 48)) 0 (e # take n t)], 1 + n))
          else if e = 120 \<or> e = 117 \<or> e = 85 then
            (let count = hex_count e in
             case hex_digits count t of
               None \<Rightarrow> Inl UnicodeDecodeError
             | Some ch \<Rightarrow>
                 if ch > 0x10FFFF then Inl UnicodeDecodeError
                 else Inr ([ch], 1 + count))
          else if e = 78 then
            (case t of
               [] \<Rightarrow> Inl UnicodeDecodeError
             | b # t' \<Rightarrow>
                 if b \<noteq> 123 then Inl UnicodeDecodeError
                 else
                   (let name = takeWhile (\<lambda>x. x \<noteq> 125) t' in
                    if length name = length t' then Inl UnicodeDecodeError
                    else if name = [] then Inl UnicodeDecodeError
                    else (case getcode name of
                            None \<Rightarrow> Inl UnicodeDecodeError
                          | Some ch \<Rightarrow> Inr ([ch], 3 + length name))))
          else Inr ([92, e], 1))"

fun unicode_escape_decode :: "nat list \<Rightarrow> codec_error + ustr" where
  "unicode_escape_decode [] = Inr []"
| "unicode_escape_decode (c # s) =
     (if c \<noteq> 92 then emit [c] (unicode_escape_decode s)
      else (case escape s of
              Inl err \<Rightarrow> Inl err
            | Inr (out, k) \<Rightarrow> emit out (unicode_escape_decode (drop k s))))"

definition is_cont :: "nat \<Rightarrow> bool" where
  "is_cont b = (0x80 \<le> b \<and> b < 0xC0)"

definition utf8_sequence :: "nat \<Rightarrow> nat list \<Rightarrow> codepoint \<times> nat" where
  "utf8_sequence ch s =
     (if ch < 0x80 then (ch, 0)
      else if ch < 0xE0 then
        (if ch < 0xC2 then (0xFFFD, 0)
         else (case s of
             [] \<Rightarrow> (0xFFFD, 0)
           | ch2 # s2 \<Rightarrow>
               if \<not> is_cont ch2 then (0xFFFD, 0)
               else (ch * 64 + ch2 - (0xC0 * 64 + 0x80), 1)))
      else if ch < 0xF0 then
        (case s of
           [] \<Rightarrow> (0xFFFD, 0)
         | ch2 # s2 \<Rightarrow>
             if \<not> is_cont ch2 \<or> (if ch2 < 0xA0 then ch = 0xE0 else ch = 0xED)
             then (0xFFFD, 0)
             else (case s2 of
                 [] \<Rightarrow> (0xFFFD, 1)
               | ch3 # s3 \<Rightarrow>
                   if \<not> is_cont ch3 then (0xFFFD, 1)
                   else (ch * 4096 + ch2 * 64 + ch3 - (0xE0 * 4096 + 0x80 * 64 + 0x80), 2)))
      else if ch < 0xF5 then
        (case s of
           [] \<Rightarrow> (0xFFFD, 0)
         | ch2 # s2 \<Rightarrow>
             if \<not> is_cont ch2 \<or> (if ch2 < 0x90 then ch = 0xF0 else ch = 0xF4)
             then (0xFFFD, 0)
             else (case s2 of
                 [] \<Rightarrow> (0xFFFD, 1)
               | ch3 # s3 \<Rightarrow>
                   if \<not> is_cont ch3 then (0xFFFD, 1)
                   else (case s3 of
                       [] \<Rightarrow> (0xFFFD, 2)
                     | ch4 # s4 \<Rightarrow>
                         if \<not> is_cont ch4 then (0xFFFD, 2)
                         else (ch * 262144 + ch2 * 4096 + ch3 * 64 + ch4
                                 - (0xF0 * 262144 + 0x80 * 4096 + 0x80 * 64 + 0x80), 3))))
      else (0xFFFD, 0))"

fun utf8_decode_replace :: "nat list \<Rightarrow> ustr" where
  "utf8_decode_replace [] = []"
| "utf8_decode_replace (ch # s) =
     (case utf8_sequence ch s of (cp, k) \<Rightarrow> cp # utf8_decode_replace (drop k s))"

fun split_on :: "'a \<Rightarrow> 'a list \<Rightarrow> 'a list list" where
  "split_on sep [] = [[]]"
| "split_on sep (c # s) =
     (if c = sep then [] # split_on sep s
      else (case split_on sep s of [] \<Rightarrow> [[c]] | b # bs \<Rightarrow> (c # b) # bs))"

definition unquote_item :: "nat list \<Rightarrow> nat list" where
  "unquote_item item =
     (case item of
        a # b # rest \<Rightarrow>
          (case (hex_val a, hex_val b) of
             (Some x, Some y) \<Rightarrow> (x * 16 + y) # rest
           | _ \<Rightarrow> 37 # item)
      | _ \<Rightarrow> 37 # item)"

definition unquote_to_bytes :: "nat list \<Rightarrow> nat list" where
  "unquote_to_bytes s =
     (case split_on 37 s of [] \<Rightarrow> [] | first # items \<Rightarrow> first @ concat (map unquote_item items))"

function unquoted_parts :: "ustr \<Rightarrow> ustr" where
  "unquoted_parts [] = []"
| "unquoted_parts (c # s) =
     (if c < 0x80
      then utf8_decode_replace (unquote_to_bytes (takeWhile (\<lambda>x. x < 0x80) (c # s)))
             @ unquoted_parts (dropWhile (\<lambda>x. x < 0x80) s)
      else c # unquoted_parts s)"
  by pat_completeness auto
termination
  by (relation "measure length") (auto simp: length_dropWhile_le less_Suc_eq_le)

definition unquote :: "ustr \<Rightarrow> ustr" where
  "unquote s = (if 37 \<notin> set s then s else unquoted_parts s)"

text \<open>
  \<open>normalize\<close> is the body of the \<open>try\<close> block: it raises when the encoding or the
  escape decoding raises. \<open>decode_url\<close> is the whole function, with its
  \<open>except Exception: return url\<close>.
\<close>

definition normalize :: "ustr \<Rightarrow> codec_error + ustr" where
  "normalize url =
     (case utf8_encode url of
        Inl e \<Rightarrow> Inl e
      | Inr bs \<Rightarrow>
          (case unicode_escape_decode bs of
             Inl e \<Rightarrow> Inl e
           | Inr decoded \<Rightarrow> Inr (unquote decoded)))"

definition decode_url :: "ustr \<Rightarrow> ustr" where
  "decode_url url = (case normalize url of Inl e \<Rightarrow> url | Inr decoded \<Rightarrow> decoded)"

section \<open>Merging, truncating and cleaning the URL lists\<close>

text \<open>
  \<open>list(dict.fromkeys(xs))\<close>: the keys are inserted one after the other, a key that
  is already there keeps its place, and the list of keys comes back in insertion
  order. \<open>fromkeys\<close> carries the keys inserted so far.
\<close>

fun fromkeys :: "'a list \<Rightarrow> 'a list \<Rightarrow> 'a list" where
  "fromkeys keys [] = keys"
| "fromkeys keys (x # xs) = fromkeys (if x \<in> set keys then keys else keys @ [x]) xs"

definition dict_fromkeys :: "'a list \<Rightarrow> 'a list" where
  "dict_fromkeys xs = fromkeys [] xs"

text \<open>
  The slice \<open>xs[:n]\<close>: the first \<open>n\<close> entries, and for a negative \<open>n\<close> all but the
  last \<open>-n\<close> entries.
\<close>

definition slice_to :: "'a list \<Rightarrow> int \<Rightarrow> 'a list" where
  "slice_to xs n = (if 0 \<le> n then take (nat n) xs else take (nat (int (length xs) + n)) xs)"

text \<open>
  The cleaning loop of \<open>find_image_urls\<close> (lines 236 to 246 of
  \<open>GoogleImageScraper.py\<close>): each URL is normalized inside its own \<open>try\<close>, and the
  \<open>except\<close> branch appends the URL as it is.
\<close>

fun clean_loop :: "ustr list \<Rightarrow> ustr list \<Rightarrow> ustr list" where
  "clean_loop cleaned_image_urls [] = cleaned_image_urls"
| "clean_loop cleaned_image_urls (url # image_urls) =
     clean_loop
       (cleaned_image_urls @ [case normalize url of Inr cleaned_url \<Rightarrow> cleaned_url | Inl e \<Rightarrow> url])
       image_urls"

definition clean_urls :: "ustr list \<Rightarrow> ustr list" where
  "clean_urls image_urls = clean_loop [] image_urls"

text \<open>
  The post-processing of \<open>find_image_urls\<close> (lines 174 to 246), with the list that
  clicking returns as an argument: the clicked URLs are appended and the duplicates
  removed only when the text scan found fewer than \<open>number_of_images\<close> URLs; then
  the list is cut to \<open>number_of_images\<close> and cleaned.
\<close>

definition merge_and_finalize :: "ustr list \<Rightarrow> ustr list \<Rightarrow> int \<Rightarrow> ustr list" where
  "merge_and_finalize full_res_urls clicked_urls number_of_images =
     (let merged =
        (if int (length full_res_urls) < number_of_images
         then dict_fromkeys (full_res_urls @ clicked_urls)
         else full_res_urls)
      in clean_urls (slice_to merged number_of_images))"

text \<open>
  What the specification calls deduplication preserving the first occurrence: the
  entries of \<open>xs\<close> that did not occur earlier in \<open>xs\<close>, in the order of \<open>xs\<close>.
\<close>

definition first_occurrences :: "'a list \<Rightarrow> 'a list" where
  "first_occurrences xs = map (\<lambda>i. xs ! i) (filter (\<lambda>i. xs ! i \<notin> set (take i xs)) [0..<length xs])"

section \<open>The pattern filter\<close>

text \<open>
  \<open>s.includes(p)\<close> in JavaScript and \<open>p in s\<close> in Python: \<open>p\<close> occurs in \<open>s\<close> as a
  contiguous run, case-sensitively. This is \<^const>\<open>sublist\<close>.
\<close>

definition str_includes :: "ustr \<Rightarrow> ustr \<Rightarrow> bool" where
  "str_includes s p = sublist p s"

text \<open>
  \<open>str.lower()\<close>: an ASCII letter \<open>A\<close> to \<open>Z\<close> becomes \<open>a\<close> to \<open>z\<close>, every other
  ASCII character stays. For a code point above 127 CPython consults the Unicode
  database, with the characters before and after it (the final sigma); that table is
  not part of the repository, and nothing is assumed of \<open>unicode_lower\<close>.
\<close>

definition ascii_lower :: "codepoint \<Rightarrow> codepoint" where
  "ascii_lower c = (if 65 \<le> c \<and> c \<le> 90 then c + 32 else c)"

definition unicode_lower :: "ustr \<Rightarrow> codepoint \<Rightarrow> ustr \<Rightarrow> ustr" where
  "unicode_lower = (SOME f. True)"

fun lower_from :: "ustr \<Rightarrow> ustr \<Rightarrow> ustr" where
  "lower_from before [] = []"
| "lower_from before (c # rest) =
     (if c < 128 then [ascii_lower c] else unicode_lower before c rest) @ lower_from (before @ [c]) rest"

definition str_lower :: "ustr \<Rightarrow> ustr" where
  "str_lower s = lower_from [] s"

text \<open>
  \<open>filter_thumbnail_urls\<close> of \<open>utils/helpers.py\<close>. \<open>is_thumbnail\<close> is the value of its
  local variable of that name: \<open>any(pattern in url.lower() for pattern in
  thumbnail_patterns)\<close>.
\<close>

definition is_thumbnail :: "ustr \<Rightarrow> ustr list \<Rightarrow> bool" where
  "is_thumbnail url thumbnail_patterns =
     list_ex (\<lambda>pattern. str_includes (str_lower url) pattern) thumbnail_patterns"

fun filter_loop :: "ustr list \<Rightarrow> ustr list \<Rightarrow> ustr list \<Rightarrow> ustr list" where
  "filter_loop thumbnail_patterns filtered_urls [] = filtered_urls"
| "filter_loop thumbnail_patterns filtered_urls (url # urls) =
     filter_loop thumbnail_patterns
       (if \<not> is_thumbnail url thumbnail_patterns \<and> length url > 50
        then filtered_urls @ [url] else filtered_urls)
       urls"

definition filter_thumbnail_urls :: "ustr list \<Rightarrow> ustr list \<Rightarrow> ustr list" where
  "filter_thumbnail_urls urls thumbnail_patterns = filter_loop thumbnail_patterns [] urls"

text \<open>The default of \<open>thumbnail_patterns\<close> in \<open>core/config.py\<close>.\<close>

definition default_blocklist :: "ustr list" where
  "default_blocklist =
     [asc ''encrypted-tbn'', asc ''logo'', asc ''favicon'', asc ''/s90/'', asc ''/s100/'',
      asc ''/s150/'', asc ''=s64'', asc ''=s90'', asc ''=s100'']"

text \<open>
  The three conditions under which the script evaluated in the page pushes a URL:
  the one for a match in a script element (nine patterns), the one for a match in a
  \<open>meta\<close> element (one pattern) and the one for a match in the whole document (three
  patterns and a length above 50). \<open>js_length\<close> is \<open>url.length\<close>, the number of UTF-16
  code units.
\<close>

definition js_length :: "ustr \<Rightarrow> nat" where
  "js_length s = sum_list (map (\<lambda>c. if c < 0x10000 then 1 else 2) s)"

definition script_url_kept :: "ustr \<Rightarrow> bool" where
  "script_url_kept url =
     (\<not> str_includes url (asc ''encrypted-tbn'') \<and>
      \<not> str_includes url (asc ''logo'') \<and>
      \<not> str_includes url (asc ''favicon'') \<and>
      \<not> str_includes url (asc ''/s90/'') \<and>
      \<not> str_includes url (asc ''/s100/'') \<and>
      \<not> str_includes url (asc ''/s150/'') \<and>
      \<not> str_includes url (asc ''=s64'') \<and>
      \<not> str_includes url (asc ''=s90'') \<and>
      \<not> str_includes url (asc ''=s100''))"

definition meta_url_kept :: "ustr \<Rightarrow> bool" where
  "meta_url_kept url = (\<not> str_includes url (asc ''encrypted-tbn''))"

definition html_url_kept :: "ustr \<Rightarrow> bool" where
  "html_url_kept url =
     (\<not> str_includes url (asc ''encrypted-tbn'') \<and>
      \<not> str_includes url (asc ''logo'') \<and>
      \<not> str_includes url (asc ''favicon'') \<and>
      js_length url > 50)"

section \<open>The three regular expressions\<close>

text \<open>
  The script matches
  \<^verbatim>\<open>/https?:\/\/[^\s"',\]]+\.(jpg|jpeg|png|webp|gif)([?&][^\s"',\]]*)?/gi\<close>
  against each script element, the same expression without the query part, without
  the \<open>g\<close> flag and with the class \<^verbatim>\<open>[^\s"']\<close> against each \<open>meta\<close> element, and the
  first expression with the class \<^verbatim>\<open>[^\s"',\](){}]\<close> against the whole document.
  The matcher below follows the backtracking order of a JavaScript regular
  expression: \<open>s?\<close> and the two character runs are greedy, the alternatives of the
  extension are tried from left to right, and a shorter run is tried only when the
  rest fails after the longer one.
\<close>

definition js_whitespace :: "codepoint \<Rightarrow> bool" where
  "js_whitespace c =
     ((9 \<le> c \<and> c \<le> 13) \<or> c = 32 \<or> c = 0xA0 \<or> c = 0x1680 \<or> (0x2000 \<le> c \<and> c \<le> 0x200A) \<or>
      c = 0x2028 \<or> c = 0x2029 \<or> c = 0x202F \<or> c = 0x205F \<or> c = 0x3000 \<or> c = 0xFEFF)"

definition script_class :: "codepoint \<Rightarrow> bool" where
  "script_class c = (\<not> js_whitespace c \<and> c \<noteq> 34 \<and> c \<noteq> 39 \<and> c \<noteq> 44 \<and> c \<noteq> 93)"

definition meta_class :: "codepoint \<Rightarrow> bool" where
  "meta_class c = (\<not> js_whitespace c \<and> c \<noteq> 34 \<and> c \<noteq> 39)"

definition html_class :: "codepoint \<Rightarrow> bool" where
  "html_class c =
     (\<not> js_whitespace c \<and> c \<noteq> 34 \<and> c \<noteq> 39 \<and> c \<noteq> 44 \<and> c \<noteq> 93 \<and>
      c \<noteq> 40 \<and> c \<noteq> 41 \<and> c \<noteq> 123 \<and> c \<noteq> 125)"

text \<open>
  A character of the expression against a character of the text under the \<open>i\<close> flag:
  a lower-case ASCII letter of the expression also matches its upper-case form, and
  no character above 127 matches an ASCII letter.
\<close>

definition ci_eq :: "codepoint \<Rightarrow> codepoint \<Rightarrow> bool" where
  "ci_eq p c = (c = p \<or> (97 \<le> p \<and> p \<le> 122 \<and> c + 32 = p))"

fun ci_prefix :: "ustr \<Rightarrow> ustr \<Rightarrow> bool" where
  "ci_prefix [] s = True"
| "ci_prefix (p # ps) [] = False"
| "ci_prefix (p # ps) (c # s) = (ci_eq p c \<and> ci_prefix ps s)"

definition match_scheme :: "ustr \<Rightarrow> nat option" where
  "match_scheme s =
     (if ci_prefix (asc ''https://'') s then Some 8
      else if ci_prefix (asc ''http://'') s then Some 7
      else None)"

definition extensions :: "ustr list" where
  "extensions = [asc ''jpg'', asc ''jpeg'', asc ''png'', asc ''webp'', asc ''gif'']"

definition match_ext :: "ustr \<Rightarrow> nat option" where
  "match_ext s =
     (case s of
        [] \<Rightarrow> None
      | d # r \<Rightarrow>
          if d \<noteq> 46 then None
          else (case filter (\<lambda>e. ci_prefix e r) extensions of
                  [] \<Rightarrow> None
                | e # es \<Rightarrow> Some (1 + length e)))"

text \<open>
  \<open>greedy_body cls r\<close>: the characters of the class taken from \<open>r\<close> before the dot of
  the extension, the longest run first, and the length of the dot and the extension.
\<close>

fun greedy_body :: "(codepoint \<Rightarrow> bool) \<Rightarrow> ustr \<Rightarrow> (nat \<times> nat) option" where
  "greedy_body cls [] = None"
| "greedy_body cls (c # r) =
     (case (if cls c then greedy_body cls r else None) of
        Some (k, n) \<Rightarrow> Some (Suc k, n)
      | None \<Rightarrow> (case match_ext (c # r) of Some n \<Rightarrow> Some (0, n) | None \<Rightarrow> None))"

definition query_len :: "(codepoint \<Rightarrow> bool) \<Rightarrow> ustr \<Rightarrow> nat" where
  "query_len cls s =
     (case s of
        [] \<Rightarrow> 0
      | c # r \<Rightarrow> if c = 63 \<or> c = 38 then 1 + length (takeWhile cls r) else 0)"

text \<open>The length of the match that starts at the first character of \<open>s\<close>, if there is one.\<close>

definition match_at :: "(codepoint \<Rightarrow> bool) \<Rightarrow> bool \<Rightarrow> ustr \<Rightarrow> nat option" where
  "match_at cls with_query s =
     (case match_scheme s of
        None \<Rightarrow> None
      | Some n0 \<Rightarrow>
          (case drop n0 s of
             [] \<Rightarrow> None
           | c # r \<Rightarrow>
               if \<not> cls c then None
               else (case greedy_body cls r of
                       None \<Rightarrow> None
                     | Some (k, n) \<Rightarrow>
                         (let m = n0 + 1 + k + n
                          in Some (m + (if with_query then query_len cls (drop m s) else 0))))))"

text \<open>
  \<open>text.match(re)\<close> with the \<open>g\<close> flag: all matches from left to right, the search
  going on where the last match ended. Without the flag: the first match.
\<close>

fun match_all :: "(codepoint \<Rightarrow> bool) \<Rightarrow> bool \<Rightarrow> ustr \<Rightarrow> ustr list" where
  "match_all cls with_query [] = []"
| "match_all cls with_query (c # s) =
     (case match_at cls with_query (c # s) of
        None \<Rightarrow> match_all cls with_query s
      | Some n \<Rightarrow> take n (c # s) # match_all cls with_query (drop (n - 1) s))"

fun match_first :: "(codepoint \<Rightarrow> bool) \<Rightarrow> bool \<Rightarrow> ustr \<Rightarrow> ustr option" where
  "match_first cls with_query [] = None"
| "match_first cls with_query (c # s) =
     (case match_at cls with_query (c # s) of
        None \<Rightarrow> match_first cls with_query s
      | Some n \<Rightarrow> Some (take n (c # s)))"

section \<open>The text scan\<close>

text \<open>
  What the script evaluated in the page reads: for every \<open>script\<close> element its
  \<open>textContent\<close> and \<open>innerHTML\<close>, for every \<open>meta\<close> element its \<open>content\<close> attribute
  (\<open>None\<close> for \<open>null\<close>), and the \<open>innerHTML\<close> of the document.
\<close>

record document =
  scripts :: "(ustr \<times> ustr) list"
  metas :: "ustr option list"
  inner_html :: ustr

text \<open>Method 1: the matches in the script elements that hold \<open>["\<close> and \<open>http\<close>.\<close>

definition script_urls :: "ustr \<times> ustr \<Rightarrow> ustr list" where
  "script_urls script =
     (let content = (if fst script \<noteq> [] then fst script else snd script) in
      if str_includes content [91, 34] \<and> str_includes content (asc ''http'')
      then filter script_url_kept (match_all script_class True content)
      else [])"

text \<open>Method 2: the first match in each \<open>meta\<close> element that holds \<open>http\<close> and \<open>.jpg\<close> or \<open>.png\<close>.\<close>

definition meta_urls :: "ustr option \<Rightarrow> ustr list" where
  "meta_urls meta =
     (let content = (case meta of None \<Rightarrow> [] | Some c \<Rightarrow> c) in
      if str_includes content (asc ''http'') \<and>
         (str_includes content (asc ''.jpg'') \<or> str_includes content (asc ''.png''))
      then (case match_first meta_class False content of
              None \<Rightarrow> []
            | Some url \<Rightarrow> if meta_url_kept url then [url] else [])
      else [])"

text \<open>Method 3: the matches in the whole document.\<close>

definition html_urls :: "ustr \<Rightarrow> ustr list" where
  "html_urls all_text = filter html_url_kept (match_all html_class True all_text)"

definition full_res_urls :: "document \<Rightarrow> ustr list" where
  "full_res_urls doc =
     concat (map script_urls (scripts doc)) @ concat (map meta_urls (metas doc)) @
     html_urls (inner_html doc)"

text \<open>
  \<open>[...new Set(xs)]\<close> lists the values in the order of their first insertion, as
  \<open>fromkeys\<close> does. \<open>xs.sort(cmp)\<close> is stable: an entry goes before the first entry
  after it that must not come before it.
\<close>

fun insert_sorted :: "('a \<Rightarrow> 'a \<Rightarrow> int) \<Rightarrow> 'a \<Rightarrow> 'a list \<Rightarrow> 'a list" where
  "insert_sorted cmp x [] = [x]"
| "insert_sorted cmp x (y # ys) =
     (if cmp x y \<le> 0 then x # y # ys else y # insert_sorted cmp x ys)"

definition js_sort :: "('a \<Rightarrow> 'a \<Rightarrow> int) \<Rightarrow> 'a list \<Rightarrow> 'a list" where
  "js_sort cmp xs = foldr (insert_sorted cmp) xs []"

definition by_length_desc :: "ustr \<Rightarrow> ustr \<Rightarrow> int" where
  "by_length_desc a b = int (js_length b) - int (js_length a)"

definition text_scan :: "document \<Rightarrow> ustr list" where
  "text_scan doc = js_sort by_length_desc (fromkeys [] (full_res_urls doc))"

section \<open>Clicking on the images\<close>

text \<open>
  What the browser answers after a click on one container: whether the click (or the
  wait after it) raises, and for each of the four selectors whether \<open>wait_for\<close> or a
  \<open>get_attribute\<close> raises, or else the values of \<open>src\<close> and \<open>data-src\<close>. Whether
  the Escape key press raises makes no difference: the URL is appended before it.
\<close>

datatype selector = ImgSrc | ImgDataSrc | ClassN3VNCb | ClassIPVvYb

datatype 'a outcome = Raised | Returned 'a

record probe =
  wait_for :: "unit outcome"
  get_src :: "ustr option outcome"
  get_data_src :: "ustr option outcome"

record container =
  click :: "unit outcome"
  located :: "selector \<Rightarrow> probe"

definition full_img_selectors :: "selector list" where
  "full_img_selectors = [ImgSrc, ImgDataSrc, ClassN3VNCb, ClassIPVvYb]"

text \<open>
  \<open>img_src = await get_attribute('src') or await get_attribute('data-src')\<close>: the
  second attribute is read only when the first is \<open>None\<close> or empty.
\<close>

definition img_src_of :: "probe \<Rightarrow> ustr option outcome" where
  "img_src_of p =
     (case wait_for p of
        Raised \<Rightarrow> Raised
      | Returned u \<Rightarrow>
          (case get_src p of
             Raised \<Rightarrow> Raised
           | Returned src \<Rightarrow>
               if src \<noteq> None \<and> src \<noteq> Some [] then Returned src else get_data_src p))"

definition src_accepted :: "ustr option \<Rightarrow> bool" where
  "src_accepted img_src =
     (case img_src of
        None \<Rightarrow> False
      | Some u \<Rightarrow>
          u \<noteq> [] \<and> str_includes u (asc ''http'') \<and> \<not> str_includes u (asc ''encrypted-tbn'') \<and>
          length u > 50)"

fun try_selectors :: "(selector \<Rightarrow> probe) \<Rightarrow> selector list \<Rightarrow> ustr option" where
  "try_selectors loc [] = None"
| "try_selectors loc (sel # sels) =
     (case img_src_of (loc sel) of
        Raised \<Rightarrow> try_selectors loc sels
      | Returned img_src \<Rightarrow>
          if src_accepted img_src then img_src else try_selectors loc sels)"

text \<open>The steps of the browser that the session takes, in order.\<close>

datatype event =
    Goto | Evaluate | ScrollToBottom | LocateContainers | Click nat | PressEscape | ClosePage

text \<open>
  The loop over the containers: it stops once \<open>number_of_images\<close> URLs were clicked;
  a click that raises skips the container.
\<close>

fun click_loop ::
  "int \<Rightarrow> (nat \<times> container) list \<Rightarrow> ustr list \<times> event list \<Rightarrow> ustr list \<times> event list" where
  "click_loop number_of_images [] st = st"
| "click_loop number_of_images ((i, c) # rest) (clicked_urls, trace) =
     (if int (length clicked_urls) \<ge> number_of_images then (clicked_urls, trace)
      else (case click c of
              Raised \<Rightarrow> click_loop number_of_images rest (clicked_urls, trace @ [Click i])
            | Returned u \<Rightarrow>
                click_loop number_of_images rest
                  (case try_selectors (located c) full_img_selectors of
                     None \<Rightarrow> clicked_urls
                   | Some img_src \<Rightarrow> clicked_urls @ [img_src],
                   trace @ [Click i, PressEscape])))"

text \<open>
  The page of one session: the document that the script reads, whether a browser
  call outside the click loop raises (\<open>load\<close>: launching, navigating, evaluating the
  script, closing; \<open>scroll\<close>: scrolling and looking for the containers), and the
  containers that are found.
\<close>

record page =
  doc :: document
  load :: "unit outcome"
  scroll :: "unit outcome"
  image_containers :: "container list"

datatype session_error = BrowserError

definition scroll_attempts :: "int \<Rightarrow> nat" where
  "scroll_attempts number_of_images = nat (max 3 (number_of_images div 10 + 1))"

definition extract_by_clicking :: "page \<Rightarrow> int \<Rightarrow> ustr list \<times> event list" where
  "extract_by_clicking pg number_of_images =
     (let max_attempts = min (int (length (image_containers pg))) (number_of_images * 2)
      in click_loop number_of_images
           (slice_to (enumerate 0 (image_containers pg)) max_attempts)
           ([], replicate (scroll_attempts number_of_images) ScrollToBottom @ [LocateContainers]))"

text \<open>
  \<open>find_image_urls\<close> of \<open>GoogleImageScraper.py\<close>: the URLs it returns and the steps
  it took, or the error that leaves it.
\<close>

definition find_image_urls :: "page \<Rightarrow> int \<Rightarrow> session_error + (ustr list \<times> event list)" where
  "find_image_urls pg number_of_images =
     (case load pg of
        Raised \<Rightarrow> Inl BrowserError
      | Returned u \<Rightarrow>
          (let full = text_scan (doc pg) in
           if int (length full) < number_of_images then
             (case scroll pg of
                Raised \<Rightarrow> Inl BrowserError
              | Returned u' \<Rightarrow>
                  (let (clicked_urls, trace) = extract_by_clicking pg number_of_images
                   in Inr (clean_urls (slice_to (dict_fromkeys (full @ clicked_urls)) number_of_images),
                           [Goto, Evaluate] @ trace @ [ClosePage])))
           else Inr (clean_urls (slice_to full number_of_images), [Goto, Evaluate, ClosePage])))"

text \<open>The steps that only the click fallback takes.\<close>

fun fallback_event :: "event \<Rightarrow> bool" where
  "fallback_event ScrollToBottom = True"
| "fallback_event LocateContainers = True"
| "fallback_event (Click i) = True"
| "fallback_event PressEscape = True"
| "fallback_event Goto = False"
| "fallback_event Evaluate = False"
| "fallback_event ClosePage = False"

text \<open>
  The value of the variable \<open>image_urls\<close> of \<open>find_image_urls\<close>: the merged list cut
  to \<open>number_of_images\<close>, before the cleaning loop.
\<close>

definition image_urls :: "page \<Rightarrow> int \<Rightarrow> ustr list" where
  "image_urls pg number_of_images =
     (let full = text_scan (doc pg) in
      slice_to
        (if int (length full) < number_of_images
         then dict_fromkeys (full @ fst (extract_by_clicking pg number_of_images))
         else full)
        number_of_images)"

section \<open>The shape of an image URL\<close>

text \<open>
  What the specification calls the image-extension pattern: the scheme \<open>http\<close> or
  \<open>https\<close> in any case, a non-empty body, a dot and one of the five extensions in any
  case, and after it nothing or a query that starts with \<open>?\<close> or \<open>&\<close>; with no white
  space and no quote anywhere.
\<close>

definition image_url_shape :: "ustr \<Rightarrow> bool" where
  "image_url_shape u =
     (\<exists>scheme body ext query.
        u = scheme @ body @ [46] @ ext @ query \<and>
        (map ascii_lower scheme = asc ''http://'' \<or> map ascii_lower scheme = asc ''https://'') \<and>
        body \<noteq> [] \<and>
        map ascii_lower ext \<in> set extensions \<and>
        (query = [] \<or> hd query = 63 \<or> hd query = 38) \<and>
        list_all meta_class u)"

section \<open>Example pages\<close>

text \<open>
  Three pages with one \<open>meta\<close> element and no image container: the URL of the first
  holds a percent escape, the URL of the second the pattern \<open>logo\<close>, and the URL of
  the third the pattern \<open>encrypted-tbn\<close> with its hyphen percent-encoded.
\<close>

definition meta_page :: page where
  "meta_page = \<lparr>doc = \<lparr>scripts = [], metas = [Some (asc ''http://a/b%20c.jpg'')],
                         inner_html = asc ''<meta content='' @ [34] @ asc ''http://a/b%20c.jpg'' @ [34] @ asc ''>''\<rparr>,
                load = Returned (), scroll = Returned (), image_containers = []\<rparr>"

definition logo_page :: page where
  "logo_page = \<lparr>doc = \<lparr>scripts = [], metas = [Some (asc ''http://a/logo.jpg'')],
                         inner_html = asc ''<meta content='' @ [34] @ asc ''http://a/logo.jpg'' @ [34] @ asc ''>''\<rparr>,
                load = Returned (), scroll = Returned (), image_containers = []\<rparr>"

definition escaped_page :: page where
  "escaped_page = \<lparr>doc = \<lparr>scripts = [], metas = [Some (asc ''http://a/encrypted%2Dtbn.jpg'')],
                         inner_html = []\<rparr>,
                load = Returned (), scroll = Returned (), image_containers = []\<rparr>"

section \<open>Properties of the resolution checks\<close>

text \<open>
  C8. For all integers \<open>w\<close>, \<open>h\<close> and windows \<open>(min_w, min_h)\<close>, \<open>(max_w, max_h)\<close>, the
  validator returns true exactly when \<open>min_w \<le> w \<le> max_w\<close> and \<open>min_h \<le> h \<le> max_h\<close>;
  the bounds themselves are accepted: \<open>validate(800,600,(800,600),(1920,1080))\<close> is
  true and \<open>validate(799,600,(800,600),(1920,1080))\<close> is false.
\<close>

theorem validate_resolution_window:
  "(validate_resolution w h (min_w, min_h) (max_w, max_h) =
      (min_w \<le> w \<and> w \<le> max_w \<and> min_h \<le> h \<and> h \<le> max_h)) \<and>
   validate_resolution min_w min_h (min_w, min_h) (min_w, min_h) \<and>
   (validate_resolution max_w max_h (min_w, min_h) (max_w, max_h) =
      (min_w \<le> max_w \<and> min_h \<le> max_h)) \<and>
   validate_resolution 800 600 (800, 600) (1920, 1080) \<and>
   \<not> validate_resolution 799 600 (800, 600) (1920, 1080)"
  by (simp add: validate_resolution_def)

text \<open>
  C10. The two resolution checks agree: for every size \<open>(w, h)\<close> of an image and every
  window, \<open>check_if_image_resolution_valid\<close> returns what \<open>validate_resolution\<close>
  returns on \<open>w\<close>, \<open>h\<close> and the same window.
\<close>

theorem check_if_image_resolution_valid_eq_validate_resolution:
  "check_if_image_resolution_valid (w, h) min_resolution max_resolution =
     validate_resolution w h min_resolution max_resolution"
  by (auto simp: check_if_image_resolution_valid_def validate_resolution_def tuple_truthy_def)

section \<open>Evaluation rules\<close>

text \<open>The unfolding rules that evaluate the model on a concrete URL.\<close>

lemmas decode_defs = decode_url_def normalize_def asc_def unquote_def unquote_to_bytes_def unquote_item_def hex_val_def
  emit_def utf8_encode_cp_def escape_def is_octal_def hex_count_def hex_digits_def utf8_sequence_def is_cont_def getcode_def name_char_def

lemmas merge_defs = merge_and_finalize_def clean_urls_def slice_to_def dict_fromkeys_def

lemmas filter_defs = is_thumbnail_def str_includes_def str_lower_def ascii_lower_def default_blocklist_def
  script_url_kept_def meta_url_kept_def html_url_kept_def js_length_def

lemmas scan_defs = match_at_def match_scheme_def match_ext_def query_len_def extensions_def ci_eq_def
  script_class_def meta_class_def html_class_def js_whitespace_def asc_def

lemmas session_defs = find_image_urls_def extract_by_clicking_def scroll_attempts_def text_scan_def
  full_res_urls_def script_urls_def meta_urls_def html_urls_def js_sort_def by_length_desc_def

section \<open>Properties of the normalization\<close>

subsection \<open>One escape of the escape decoder\<close>

lemma emit_Inr_iff: "emit cs r = Inr v \<longleftrightarrow> (\<exists>v'. r = Inr v' \<and> v = cs @ v')"
  by (auto simp: emit_def split: sum.splits)

lemma utf8_encode_ascii: "\<forall>c \<in> set u. c < 128 \<Longrightarrow> utf8_encode u = Inr u"
  by (induction u) (auto simp: utf8_encode_cp_def)

lemma utf8_encode_append_case:
  "utf8_encode (x @ y) =
     (case utf8_encode x of
        Inl e \<Rightarrow> Inl e
      | Inr bx \<Rightarrow> (case utf8_encode y of Inl e \<Rightarrow> Inl e | Inr by \<Rightarrow> Inr (bx @ by)))"
  by (induction x) (simp_all split: sum.splits)

lemma utf8_encode_append:
  "utf8_encode (x @ y) = Inr b \<longleftrightarrow>
     (\<exists>bx by. utf8_encode x = Inr bx \<and> utf8_encode y = Inr by \<and> b = bx @ by)"
  by (auto simp: utf8_encode_append_case split: sum.splits)

lemma unicode_escape_decode_plain: "92 \<notin> set b \<Longrightarrow> unicode_escape_decode b = Inr b"
  by (induction b) (auto simp: emit_def)

lemma takeWhile_take_append_stop:
  "\<not> P c \<Longrightarrow> takeWhile P (take m (t @ c # r)) = takeWhile P (take m t)"
proof (induction t arbitrary: m)
  case Nil
  then show ?case by (cases m) auto
next
  case (Cons a t)
  then show ?case by (cases m) auto
qed

lemma length_takeWhile_take_le: "length (takeWhile P (take m t)) \<le> length t"
  using length_takeWhile_le [of P "take m t"] by simp

lemma hex_digits_Some_length: "hex_digits count t = Some ch \<Longrightarrow> count \<le> length t"
  by (auto simp: hex_digits_def split: if_splits)

lemma hex_digits_stop:
  assumes "hex_digits count (t @ c # r) = Some ch" "hex_val c = None"
  shows "count \<le> length t"
proof (rule ccontr)
  assume "\<not> count \<le> length t"
  then have "c \<in> set (take count (t @ c # r))"
    by (cases "count - length t") auto
  moreover from assms(1) have "\<forall>d \<in> set (take count (t @ c # r)). hex_val d \<noteq> None"
    by (simp add: hex_digits_def list_all_iff split: if_splits)
  ultimately show False
    using assms(2) by blast
qed

lemma escape_octal:
  "is_octal e \<Longrightarrow> escape (e # t) =
     Inr ([foldl (\<lambda>ch d. ch * 8 + (d - 48)) 0 (e # take (length (takeWhile is_octal (take 2 t))) t)],
          1 + length (takeWhile is_octal (take 2 t)))"
  by (simp add: escape_def is_octal_def Let_def)

lemma escape_hex:
  "e = 120 \<or> e = 117 \<or> e = 85 \<Longrightarrow> escape (e # t) =
     (case hex_digits (hex_count e) t of
        None \<Rightarrow> Inl UnicodeDecodeError
      | Some ch \<Rightarrow> if ch > 0x10FFFF then Inl UnicodeDecodeError else Inr ([ch], 1 + hex_count e))"
  by (elim disjE) (simp_all add: escape_def is_octal_def Let_def split: option.splits)

lemma escape_name:
  "escape (78 # t) =
     (case t of
        [] \<Rightarrow> Inl UnicodeDecodeError
      | b # t' \<Rightarrow>
          if b \<noteq> 123 then Inl UnicodeDecodeError
          else if length (takeWhile (\<lambda>x. x \<noteq> 125) t') = length t' then Inl UnicodeDecodeError
          else if takeWhile (\<lambda>x. x \<noteq> 125) t' = [] then Inl UnicodeDecodeError
          else (case getcode (takeWhile (\<lambda>x. x \<noteq> 125) t') of
                  None \<Rightarrow> Inl UnicodeDecodeError
                | Some ch \<Rightarrow> Inr ([ch], 3 + length (takeWhile (\<lambda>x. x \<noteq> 125) t'))))"
  by (simp add: escape_def is_octal_def Let_def split: list.splits)

lemma escape_simple:
  assumes "\<not> is_octal e" "e \<noteq> 120" "e \<noteq> 117" "e \<noteq> 85" "e \<noteq> 78"
  shows "escape (e # t) = escape [e] \<and> (\<forall>out k. escape [e] = Inr (out, k) \<longrightarrow> k = 1)"
  using assms by (simp add: escape_def)

lemma escape_consumed:
  assumes "escape x = Inr (out, k)"
  shows "1 \<le> k \<and> k \<le> length x"
proof (cases x)
  case Nil
  with assms show ?thesis by (simp add: escape_def)
next
  case (Cons e t)
  consider (oct) "is_octal e" | (hex) "e = 120 \<or> e = 117 \<or> e = 85" | (name) "e = 78"
    | (simple) "\<not> is_octal e" "e \<noteq> 120" "e \<noteq> 117" "e \<noteq> 85" "e \<noteq> 78"
    by blast
  then show ?thesis
  proof cases
    case oct
    with assms Cons show ?thesis
      using escape_octal [OF oct, of t] length_takeWhile_take_le [of is_octal 2 t] by auto
  next
    case hex
    from assms Cons obtain ch where h: "hex_digits (hex_count e) t = Some ch"
      and k: "k = 1 + hex_count e"
      using escape_hex [OF hex, of t] by (auto split: option.splits if_splits)
    from h have "hex_count e \<le> length t" by (rule hex_digits_Some_length)
    with k Cons show ?thesis by simp
  next
    case name
    from assms Cons name obtain t' where t: "t = 123 # t'"
      and len: "length (takeWhile (\<lambda>x. x \<noteq> 125) t') \<noteq> length t'"
      and k: "k = 3 + length (takeWhile (\<lambda>x. x \<noteq> 125) t')"
      using escape_name [of t] by (auto split: list.splits option.splits if_splits)
    from len have "length (takeWhile (\<lambda>x. x \<noteq> 125) t') < length t'"
      using length_takeWhile_le [of "\<lambda>x. x \<noteq> 125" t'] by linarith
    with k t Cons show ?thesis by simp
  next
    case simple
    with assms Cons have "k = 1"
      using escape_simple [OF simple, of t] by auto
    with Cons show ?thesis by simp
  qed
qed

lemma name_stops_before_percent:
  assumes "getcode (takeWhile (\<lambda>x. x \<noteq> 125) (t' @ c # r)) = Some ch" "\<not> name_char c" "c \<noteq> 125"
  shows "length (takeWhile (\<lambda>x. x \<noteq> 125) (t' @ c # r)) < length t'"
proof (cases "\<forall>x \<in> set t'. x \<noteq> 125")
  case True
  then have "takeWhile (\<lambda>x. x \<noteq> 125) (t' @ c # r) = t' @ takeWhile (\<lambda>x. x \<noteq> 125) (c # r)"
    by (simp add: takeWhile_append2)
  then show ?thesis
    using assms by (auto simp: getcode_def name_char_def split: if_splits)
next
  case False
  then have eq: "takeWhile (\<lambda>x. x \<noteq> 125) (t' @ c # r) = takeWhile (\<lambda>x. x \<noteq> 125) t'"
    by (simp add: takeWhile_append1)
  from False have "takeWhile (\<lambda>x. x \<noteq> 125) t' \<noteq> t'"
    by (simp add: takeWhile_eq_all_conv)
  then have "length (takeWhile (\<lambda>x. x \<noteq> 125) t') \<noteq> length t'"
    by (metis takeWhile_eq_take take_all_iff order_refl length_takeWhile_le)
  then show ?thesis
    unfolding eq using length_takeWhile_le [of "\<lambda>x. x \<noteq> 125" t'] by linarith
qed

lemma escape_before_percent:
  assumes "escape (x @ 37 # r) = Inr (out, k)"
  shows "k \<le> length x \<or> (x = [] \<and> k = 1 \<and> out = [92, 37])"
proof (cases x)
  case Nil
  with assms show ?thesis by (simp add: escape_def is_octal_def split: if_splits)
next
  case (Cons e t)
  consider (oct) "is_octal e" | (hex) "e = 120 \<or> e = 117 \<or> e = 85" | (name) "e = 78"
    | (simple) "\<not> is_octal e" "e \<noteq> 120" "e \<noteq> 117" "e \<noteq> 85" "e \<noteq> 78"
    by blast
  then show ?thesis
  proof cases
    case oct
    have oct0: "takeWhile is_octal (take 2 (t @ 37 # r)) = takeWhile is_octal (take 2 t)"
      by (rule takeWhile_take_append_stop) (simp add: is_octal_def)
    have "k = 1 + length (takeWhile is_octal (take 2 t))"
      using assms Cons escape_octal [OF oct, of "t @ 37 # r"] unfolding oct0 by simp
    then show ?thesis
      using Cons length_takeWhile_take_le [of is_octal 2 t] by simp
  next
    case hex
    from assms Cons obtain ch where h: "hex_digits (hex_count e) (t @ 37 # r) = Some ch"
      and k: "k = 1 + hex_count e"
      using escape_hex [OF hex, of "t @ 37 # r"] by (auto split: option.splits if_splits)
    from h have "hex_count e \<le> length t"
      by (rule hex_digits_stop) (simp add: hex_val_def)
    with k Cons show ?thesis by simp
  next
    case name
    from assms Cons name obtain t' ch where t: "t @ 37 # r = 123 # t'"
      and g: "getcode (takeWhile (\<lambda>x. x \<noteq> 125) t') = Some ch"
      and k: "k = 3 + length (takeWhile (\<lambda>x. x \<noteq> 125) t')"
      using escape_name [of "t @ 37 # r"] by (auto split: list.splits option.splits if_splits)
    from t obtain t'' where t'': "t = 123 # t''" "t' = t'' @ 37 # r"
      by (cases t) auto
    from g have "length (takeWhile (\<lambda>x. x \<noteq> 125) (t'' @ 37 # r)) < length t''"
      unfolding t'' by (rule name_stops_before_percent) (simp_all add: name_char_def)
    with k t'' Cons show ?thesis by simp
  next
    case simple
    with assms Cons have "k = 1"
      using escape_simple [OF simple, of "t @ 37 # r"] by auto
    with Cons show ?thesis by simp
  qed
qed

lemma escape_extend:
  assumes "escape x = Inr (out, k)"
  shows "escape (x @ 92 # r) = Inr (out, k)"
proof (cases x)
  case Nil
  with assms show ?thesis by (simp add: escape_def)
next
  case (Cons e t)
  consider (oct) "is_octal e" | (hex) "e = 120 \<or> e = 117 \<or> e = 85" | (name) "e = 78"
    | (simple) "\<not> is_octal e" "e \<noteq> 120" "e \<noteq> 117" "e \<noteq> 85" "e \<noteq> 78"
    by blast
  then show ?thesis
  proof cases
    case oct
    have oct0: "takeWhile is_octal (take 2 (t @ 92 # r)) = takeWhile is_octal (take 2 t)"
      by (rule takeWhile_take_append_stop) (simp add: is_octal_def)
    have "take (length (takeWhile is_octal (take 2 t))) (t @ 92 # r)
            = take (length (takeWhile is_octal (take 2 t))) t"
      using length_takeWhile_take_le [of is_octal 2 t] by simp
    then have "escape (e # t @ 92 # r) = escape (e # t)"
      unfolding escape_octal [OF oct] oct0 by simp
    with assms Cons show ?thesis by simp
  next
    case hex
    from assms Cons obtain ch where h: "hex_digits (hex_count e) t = Some ch"
      using escape_hex [OF hex, of t] by (auto split: option.splits if_splits)
    then have "hex_count e \<le> length t"
      by (rule hex_digits_Some_length)
    then have "hex_digits (hex_count e) (t @ 92 # r) = hex_digits (hex_count e) t"
      by (simp add: hex_digits_def)
    then have "escape (e # t @ 92 # r) = escape (e # t)"
      unfolding escape_hex [OF hex] by simp
    with assms Cons show ?thesis by simp
  next
    case name
    from assms Cons name obtain t' where t: "t = 123 # t'"
      and len: "length (takeWhile (\<lambda>x. x \<noteq> 125) t') \<noteq> length t'"
      using escape_name [of t] by (auto split: list.splits option.splits if_splits)
    have ne: "\<not> (\<forall>x \<in> set t'. x \<noteq> 125)"
    proof
      assume "\<forall>x \<in> set t'. x \<noteq> 125"
      then have "takeWhile (\<lambda>x. x \<noteq> 125) t' = t'" by simp
      with len show False by simp
    qed
    then have "\<exists>x \<in> set t'. \<not> x \<noteq> 125"
      by simp
    then have tw: "takeWhile (\<lambda>x. x \<noteq> 125) (t' @ 92 # r) = takeWhile (\<lambda>x. x \<noteq> 125) t'"
      by (simp add: takeWhile_append1)
    have len': "length (takeWhile (\<lambda>x. x \<noteq> 125) t') \<noteq> length (t' @ 92 # r)"
      using length_takeWhile_le [of "\<lambda>x. x \<noteq> 125" t'] by simp
    have "escape (78 # t @ 92 # r) = escape (78 # t)"
      unfolding escape_name t using len len' ne by (simp add: tw split: option.splits)
    with assms Cons name show ?thesis by simp
  next
    case simple
    then have "escape (e # t @ 92 # r) = escape (e # t)"
      using escape_simple [OF simple, of "t @ 92 # r"] escape_simple [OF simple, of t] by simp
    with assms Cons show ?thesis by simp
  qed
qed

subsection \<open>What the escape decoder keeps\<close>

lemma sublist_prepend: "sublist xs ys \<Longrightarrow> sublist xs (zs @ ys)"
proof -
  assume "sublist xs ys"
  then obtain ps ss where "ys = ps @ xs @ ss" by (auto simp: sublist_def)
  then have "zs @ ys = (zs @ ps) @ xs @ ss" by simp
  then show ?thesis unfolding sublist_def by blast
qed

lemma percent_20_survives:
  "unicode_escape_decode (x @ 37 # 50 # 48 # y) = Inr v \<Longrightarrow> sublist [37, 50, 48] v"
proof (induction x arbitrary: v rule: length_induct)
  case (1 x)
  show ?case
  proof (cases x)
    case Nil
    with "1.prems" obtain v' where "v = [37, 50, 48] @ v'"
      by (auto simp: emit_Inr_iff)
    then show ?thesis by simp
  next
    case (Cons c x')
    show ?thesis
    proof (cases "c = 92")
      case False
      with "1.prems" Cons obtain v' where v': "unicode_escape_decode (x' @ 37 # 50 # 48 # y) = Inr v'"
        and v: "v = [c] @ v'"
        by (auto simp: emit_Inr_iff)
      have "length x' < length x" using Cons by simp
      with "1.IH" v' have "sublist [37, 50, 48] v'" by blast
      then show ?thesis unfolding v by (rule sublist_prepend)
    next
      case True
      with "1.prems" Cons obtain out k v' where e: "escape (x' @ 37 # 50 # 48 # y) = Inr (out, k)"
        and v': "unicode_escape_decode (drop k (x' @ 37 # 50 # 48 # y)) = Inr v'"
        and v: "v = out @ v'"
        by (auto simp: emit_Inr_iff split: sum.splits)
      from escape_before_percent [OF e]
      consider (inside) "k \<le> length x'" | (at) "x' = []" "k = 1" "out = [92, 37]"
        by blast
      then show ?thesis
      proof cases
        case inside
        then have "drop k (x' @ 37 # 50 # 48 # y) = drop k x' @ 37 # 50 # 48 # y"
          by simp
        with v' have "unicode_escape_decode (drop k x' @ 37 # 50 # 48 # y) = Inr v'" by simp
        moreover have "length (drop k x') < length x" using Cons by simp
        ultimately have "sublist [37, 50, 48] v'" using "1.IH" by blast
        then show ?thesis unfolding v by (rule sublist_prepend)
      next
        case at
        with v' obtain v'' where "v' = [50, 48] @ v''"
          by (auto simp: emit_Inr_iff)
        with v at have "v = [92] @ [37, 50, 48] @ v''" by simp
        then show ?thesis by (simp only: sublist_appendI)
      qed
    qed
  qed
qed

lemma unicode_escape_decode_prefix:
  "unicode_escape_decode x = Inr w \<Longrightarrow>
     unicode_escape_decode (x @ 92 # r) = emit w (unicode_escape_decode (92 # r))"
proof (induction x arbitrary: w rule: length_induct)
  case (1 x)
  show ?case
  proof (cases x)
    case Nil
    with "1.prems" show ?thesis by (simp add: emit_def split: sum.splits prod.splits)
  next
    case (Cons c x')
    show ?thesis
    proof (cases "c = 92")
      case False
      with "1.prems" Cons obtain w' where w': "unicode_escape_decode x' = Inr w'" and w: "w = [c] @ w'"
        by (auto simp: emit_Inr_iff)
      have "length x' < length x" using Cons by simp
      with "1.IH" w'
      have "unicode_escape_decode (x' @ 92 # r) = emit w' (unicode_escape_decode (92 # r))" by blast
      with False Cons w show ?thesis
        by (simp add: emit_def split: sum.splits)
    next
      case True
      with "1.prems" Cons obtain out k w' where e: "escape x' = Inr (out, k)"
        and w': "unicode_escape_decode (drop k x') = Inr w'"
        and w: "w = out @ w'"
        by (auto simp: emit_Inr_iff split: sum.splits)
      from escape_consumed [OF e] have k: "k \<le> length x'" by simp
      have "length (drop k x') < length x" using Cons by simp
      with "1.IH" w'
      have "unicode_escape_decode (drop k x' @ 92 # r) = emit w' (unicode_escape_decode (92 # r))"
        by blast
      with True Cons w k escape_extend [OF e, of r] show ?thesis
        by (simp add: emit_def split: sum.splits)
    qed
  qed
qed

subsection \<open>What percent-decoding keeps\<close>

lemma split_on_not_Nil [simp]: "split_on sep s \<noteq> []"
  by (induction s) (auto split: list.splits)

lemma split_on_append_sep:
  "split_on sep (a @ sep # rest) = split_on sep a @ split_on sep rest"
proof (induction a)
  case Nil
  then show ?case by simp
next
  case (Cons c a)
  obtain b bs where "split_on sep a = b # bs"
    by (cases "split_on sep a") auto
  with Cons show ?case by (auto split: list.splits)
qed

lemma unquote_to_bytes_percent_20: "32 \<in> set (unquote_to_bytes (a @ 37 # 50 # 48 # b))"
proof -
  obtain f items where f: "split_on 37 a = f # items"
    by (cases "split_on 37 a") auto
  obtain b0 bs where b0: "split_on 37 b = b0 # bs"
    by (cases "split_on 37 b") auto
  have "split_on 37 (a @ 37 # 50 # 48 # b) = f # items @ (50 # 48 # b0) # bs"
    by (simp add: split_on_append_sep f b0)
  moreover have "unquote_item (50 # 48 # b0) = 32 # b0"
    by (simp add: unquote_item_def hex_val_def)
  ultimately show ?thesis
    by (simp add: unquote_to_bytes_def)
qed

lemma utf8_sequence_cont:
  assumes "utf8_sequence ch s = (cp, k)"
  shows "k \<le> length s \<and> (\<forall>b \<in> set (take k s). is_cont b) \<and> (ch < 128 \<longrightarrow> cp = ch)"
  using assms
  by (auto simp: utf8_sequence_def split: if_splits list.splits dest: in_set_takeD)

lemma utf8_decode_replace_keeps_ascii:
  "c < 128 \<Longrightarrow> c \<in> set bs \<Longrightarrow> c \<in> set (utf8_decode_replace bs)"
proof (induction bs rule: utf8_decode_replace.induct)
  case 1
  then show ?case by simp
next
  case (2 ch s)
  obtain cp k where sq: "utf8_sequence ch s = (cp, k)"
    by (cases "utf8_sequence ch s") auto
  note ct = utf8_sequence_cont [OF sq]
  show ?case
  proof (cases "c = ch")
    case True
    with "2.prems" ct sq show ?thesis by simp
  next
    case False
    with "2.prems" have "c \<in> set s" by simp
    then have "c \<in> set (take k s) \<or> c \<in> set (drop k s)"
      by (metis Un_iff append_take_drop_id set_append)
    moreover have "c \<notin> set (take k s)"
      using ct "2.prems"(1) by (auto simp: is_cont_def)
    ultimately have "c \<in> set (drop k s)" by simp
    with "2.IH" [OF sq [symmetric] "2.prems"(1)] sq show ?thesis by simp
  qed
qed

lemma split_on_concat: "set (concat (split_on sep s)) = set s - {sep}"
proof (induction s)
  case Nil
  then show ?case by simp
next
  case (Cons c s)
  obtain b bs where "split_on sep s = b # bs"
    by (cases "split_on sep s") auto
  with Cons show ?case by auto
qed

lemma unquote_item_keeps:
  "c \<in> set item \<Longrightarrow> hex_val c = None \<Longrightarrow> c \<in> set (unquote_item item)"
  by (auto simp: unquote_item_def split: list.splits option.splits)

lemma unquote_to_bytes_keeps:
  assumes "c \<in> set run" "hex_val c = None" "c \<noteq> 37"
  shows "c \<in> set (unquote_to_bytes run)"
proof -
  obtain f items where f: "split_on 37 run = f # items"
    by (cases "split_on 37 run") auto
  from assms have "c \<in> set (concat (split_on 37 run))"
    unfolding split_on_concat by simp
  with f have "c \<in> set f \<or> (\<exists>item \<in> set items. c \<in> set item)"
    by auto
  then show ?thesis
    using assms(2) f by (auto simp: unquote_to_bytes_def dest: unquote_item_keeps)
qed

lemma ascii_run_split:
  fixes s :: "nat list"
  assumes "sublist ps s" "ps \<noteq> []" "\<forall>c \<in> set ps. c < 128"
  shows "sublist ps (takeWhile (\<lambda>x. x < 128) s) \<or> sublist ps (dropWhile (\<lambda>x. x < 128) s)"
proof -
  let ?run = "takeWhile (\<lambda>x. x < 128) s" and ?rest = "dropWhile (\<lambda>x. x < 128) s"
  from assms(1) have "sublist ps (?run @ ?rest)" by simp
  then consider "sublist ps ?run" | "sublist ps ?rest"
    | xs1 xs2 where "ps = xs1 @ xs2" "suffix xs1 ?run" "prefix xs2 ?rest"
    unfolding sublist_append by blast
  then show ?thesis
  proof cases
    case 3
    show ?thesis
    proof (cases xs2)
      case Nil
      with 3 have "suffix ps ?run" by simp
      then show ?thesis by (simp add: suffix_imp_sublist)
    next
      case (Cons d xs2')
      with 3 obtain rest' where r: "?rest = d # rest'"
        by (auto simp: prefix_def)
      then have "\<not> d < 128"
        by (metis dropWhile_eq_Cons_conv)
      moreover from 3 Cons assms(3) have "d < 128" by simp
      ultimately show ?thesis by simp
    qed
  qed simp_all
qed

lemma unquoted_parts_percent_20:
  "sublist [37, 50, 48] v \<Longrightarrow> 32 \<in> set (unquoted_parts v)"
proof (induction v rule: unquoted_parts.induct)
  case 1
  then show ?case by simp
next
  case (2 c s)
  show ?case
  proof (cases "c < 128")
    case True
    have dw: "dropWhile (\<lambda>x. x < 128) (c # s) = dropWhile (\<lambda>x. x < 128) s"
      using True by simp
    from ascii_run_split [OF "2.prems"]
    consider "sublist [37, 50, 48] (takeWhile (\<lambda>x. x < 128) (c # s))"
      | "sublist [37, 50, 48] (dropWhile (\<lambda>x. x < 128) s)"
      unfolding dw by auto
    then show ?thesis
    proof cases
      case 1
      then obtain a b where "takeWhile (\<lambda>x. x < 128) (c # s) = a @ 37 # 50 # 48 # b"
        by (auto simp: sublist_def)
      then have "32 \<in> set (unquote_to_bytes (takeWhile (\<lambda>x. x < 128) (c # s)))"
        by (simp only: unquote_to_bytes_percent_20)
      then have "32 \<in> set (utf8_decode_replace (unquote_to_bytes (takeWhile (\<lambda>x. x < 128) (c # s))))"
        by (intro utf8_decode_replace_keeps_ascii) simp_all
      with True show ?thesis by (simp del: takeWhile.simps)
    next
      case 2
      with "2.IH"(1) [OF True] True show ?thesis by simp
    qed
  next
    case False
    with "2.prems" have "sublist [37, 50, 48] s"
      by (auto simp: sublist_Cons_right)
    with "2.IH"(2) [OF False] False show ?thesis by simp
  qed
qed

lemma unquoted_parts_keeps:
  "c \<in> set v \<Longrightarrow> c < 128 \<Longrightarrow> hex_val c = None \<Longrightarrow> c \<noteq> 37 \<Longrightarrow> c \<in> set (unquoted_parts v)"
proof (induction v rule: unquoted_parts.induct)
  case 1
  then show ?case by simp
next
  case (2 d s)
  show ?case
  proof (cases "d < 128")
    case True
    have "d # s = takeWhile (\<lambda>x. x < 128) (d # s) @ dropWhile (\<lambda>x. x < 128) s"
      using True takeWhile_dropWhile_id [of "\<lambda>x. x < 128" "d # s"] by simp
    with "2.prems"(1)
    consider "c \<in> set (takeWhile (\<lambda>x. x < 128) (d # s))" | "c \<in> set (dropWhile (\<lambda>x. x < 128) s)"
      by (metis Un_iff set_append)
    then show ?thesis
    proof cases
      case 1
      then have "c \<in> set (unquote_to_bytes (takeWhile (\<lambda>x. x < 128) (d # s)))"
        using "2.prems" by (intro unquote_to_bytes_keeps)
      then have "c \<in> set (utf8_decode_replace (unquote_to_bytes (takeWhile (\<lambda>x. x < 128) (d # s))))"
        using "2.prems" by (intro utf8_decode_replace_keeps_ascii)
      with True show ?thesis by (simp del: takeWhile.simps)
    next
      case 2
      with "2.IH"(1) [OF True] "2.prems" True show ?thesis by simp
    qed
  next
    case False
    with "2.prems" have "c \<in> set s" by auto
    with "2.IH"(2) [OF False] "2.prems" False show ?thesis by simp
  qed
qed

subsection \<open>Normalizing a URL\<close>

lemma normalize_Inr_iff:
  "normalize u = Inr v \<longleftrightarrow>
     (\<exists>b d. utf8_encode u = Inr b \<and> unicode_escape_decode b = Inr d \<and> v = unquote d)"
  by (auto simp: normalize_def split: sum.splits)

lemma decode_url_normalized: "normalize u = Inr v \<Longrightarrow> decode_url u = v"
  by (simp add: decode_url_def)

lemma decode_url_percent_20:
  assumes "sublist [37, 50, 48] u" "normalize u = Inr v"
  shows "32 \<in> set v"
proof -
  from assms(2) obtain b d where b: "utf8_encode u = Inr b" and d: "unicode_escape_decode b = Inr d"
    and v: "v = unquote d"
    by (auto simp: normalize_Inr_iff)
  from assms(1) obtain x y where "u = x @ 37 # 50 # 48 # y"
    by (auto simp: sublist_def)
  with b obtain bx "by" where "b = bx @ 37 # 50 # 48 # by"
    by (auto simp: utf8_encode_append utf8_encode_cp_def split: sum.splits)
  with d have sub: "sublist [37, 50, 48] d"
    by (simp add: percent_20_survives)
  then have "37 \<in> set d"
    using set_mono_sublist by fastforce
  with sub v show ?thesis
    by (simp add: unquote_def unquoted_parts_percent_20)
qed

lemma decode_url_u003d:
  assumes "u = pre @ 92 # [117, 48, 48, 51, 100] @ post" "normalize pre = Inr w" "normalize u = Inr v"
  shows "61 \<in> set v"
proof -
  from assms(3) obtain b d where b: "utf8_encode u = Inr b" and d: "unicode_escape_decode b = Inr d"
    and v: "v = unquote d"
    by (auto simp: normalize_Inr_iff)
  from assms(2) obtain bp dp where bp: "utf8_encode pre = Inr bp" and dp: "unicode_escape_decode bp = Inr dp"
    by (auto simp: normalize_Inr_iff)
  from b bp assms(1) obtain bq where bq: "b = bp @ 92 # 117 # 48 # 48 # 51 # 100 # bq"
    by (auto simp: utf8_encode_append utf8_encode_cp_def split: sum.splits)
  have "escape (117 # 48 # 48 # 51 # 100 # bq) = Inr ([61], 5)"
    by (simp add: escape_def is_octal_def hex_count_def hex_digits_def hex_val_def)
  then have "unicode_escape_decode (92 # 117 # 48 # 48 # 51 # 100 # bq) = emit [61] (unicode_escape_decode bq)"
    by simp
  with d bq unicode_escape_decode_prefix [OF dp, of "117 # 48 # 48 # 51 # 100 # bq"]
  have "emit dp (emit [61] (unicode_escape_decode bq)) = Inr d" by simp
  then have in_d: "61 \<in> set d"
    by (auto simp: emit_Inr_iff)
  show ?thesis
  proof (cases "37 \<in> set d")
    case True
    then show ?thesis
      unfolding v using in_d by (simp add: unquote_def unquoted_parts_keeps hex_val_def)
  next
    case False
    then show ?thesis unfolding v using in_d by (simp add: unquote_def)
  qed
qed

lemma decode_url_plain:
  assumes "\<forall>c \<in> set u. c < 128 \<and> c \<noteq> 92 \<and> c \<noteq> 37"
  shows "decode_url u = u"
proof -
  from assms have "utf8_encode u = Inr u" by (simp add: utf8_encode_ascii)
  moreover from assms have "unicode_escape_decode u = Inr u"
    by (intro unicode_escape_decode_plain) auto
  moreover from assms have "unquote u = u" by (auto simp: unquote_def)
  ultimately show ?thesis by (simp add: decode_url_def normalize_def)
qed


text \<open>
  C6, as the code has it. Let \<open>u\<close> be a URL whose normalization does not raise, with
  result \<open>v\<close>; then \<open>decode_url u\<close> is \<open>v\<close>, and
  \<^item> if \<open>u\<close> contains \<open>%20\<close>, then \<open>v\<close> contains a space;
  \<^item> if \<open>u\<close> is \<open>pre\<close>, a backslash, \<open>u003d\<close> and \<open>post\<close>, where \<open>pre\<close> is
    normalized without a raise on its own (so the backslash is not the second half
    of an escape), then \<open>v\<close> contains \<open>=\<close>.

  A URL of ASCII characters with neither a backslash nor a percent sign is returned
  unchanged.
\<close>

theorem decode_url_escapes:
  "(sublist (asc ''%20'') u \<and> normalize u = Inr v \<longrightarrow> decode_url u = v \<and> 32 \<in> set v) \<and>
   (u = pre @ 92 # asc ''u003d'' @ post \<and> normalize pre = Inr w \<and> normalize u = Inr v
      \<longrightarrow> decode_url u = v \<and> 61 \<in> set v) \<and>
   ((\<forall>c \<in> set u. c < 128 \<and> c \<noteq> 92 \<and> c \<noteq> 37) \<longrightarrow> decode_url u = u)"
proof -
  have a: "asc ''%20'' = [37, 50, 48]" and b: "asc ''u003d'' = [117, 48, 48, 51, 100]"
    by (simp_all add: asc_def)
  show ?thesis
    unfolding a b
    using decode_url_percent_20 [of u v] decode_url_u003d [of u pre post w v]
      decode_url_plain [of u] decode_url_normalized [of u v]
    by blast
qed


text \<open>An instance of each of the three parts.\<close>

theorem decode_url_escapes_witness:
  "sublist (asc ''%20'') (asc ''http://a/b%20c.jpg'') \<and>
   normalize (asc ''http://a/b%20c.jpg'') = Inr (asc ''http://a/b c.jpg'') \<and>
   decode_url (asc ''http://a/b%20c.jpg'') = asc ''http://a/b c.jpg'' \<and>
   32 \<in> set (asc ''http://a/b c.jpg'') \<and>
   normalize (asc ''http://a/b.jpg?x'') = Inr (asc ''http://a/b.jpg?x'') \<and>
   normalize (asc ''http://a/b.jpg?x'' @ 92 # asc ''u003d'' @ asc ''y'') = Inr (asc ''http://a/b.jpg?x=y'') \<and>
   decode_url (asc ''http://a/b.jpg?x'' @ 92 # asc ''u003d'' @ asc ''y'') = asc ''http://a/b.jpg?x=y'' \<and>
   61 \<in> set (asc ''http://a/b.jpg?x=y'') \<and>
   decode_url (asc ''http://a/b.jpg'') = asc ''http://a/b.jpg''"
proof -
  have s: "sublist (asc ''%20'') (asc ''http://a/b%20c.jpg'')"
    by (simp add: asc_def sublist_Cons_right)
  have n: "normalize (asc ''http://a/b%20c.jpg'') = Inr (asc ''http://a/b c.jpg'')"
    by (simp add: decode_defs)
  have np: "normalize (asc ''http://a/b.jpg?x'') = Inr (asc ''http://a/b.jpg?x'')"
    by (simp add: decode_defs)
  have nu: "normalize (asc ''http://a/b.jpg?x'' @ 92 # asc ''u003d'' @ asc ''y'') = Inr (asc ''http://a/b.jpg?x=y'')"
    by (simp add: decode_defs)
  have pl: "\<forall>c \<in> set (asc ''http://a/b.jpg''). c < 128 \<and> c \<noteq> 92 \<and> c \<noteq> 37"
    by (simp add: asc_def)
  from s n decode_url_escapes [of "asc ''http://a/b%20c.jpg''" "asc ''http://a/b c.jpg''"]
  have a: "decode_url (asc ''http://a/b%20c.jpg'') = asc ''http://a/b c.jpg'' \<and> 32 \<in> set (asc ''http://a/b c.jpg'')"
    by blast
  from np nu decode_url_escapes [of "asc ''http://a/b.jpg?x'' @ 92 # asc ''u003d'' @ asc ''y''"
      "asc ''http://a/b.jpg?x=y''" "asc ''http://a/b.jpg?x''" "asc ''y''" "asc ''http://a/b.jpg?x''"]
  have b: "decode_url (asc ''http://a/b.jpg?x'' @ 92 # asc ''u003d'' @ asc ''y'') = asc ''http://a/b.jpg?x=y'' \<and>
           61 \<in> set (asc ''http://a/b.jpg?x=y'')"
    by blast
  from pl decode_url_escapes [of "asc ''http://a/b.jpg''"]
  have c: "decode_url (asc ''http://a/b.jpg'') = asc ''http://a/b.jpg''"
    by blast
  from s n np nu a b c show ?thesis by blast
qed

text \<open>
  Where the claim fails as written: a URL that ends in a backslash makes the escape
  decoder raise, so it comes back as it is, with its \<open>%20\<close>; in \<open>\\u003d\<close> the two
  backslashes are one escape and \<open>u003d\<close> stays; and a code point above 127 is encoded
  to UTF-8 and its bytes are read back one by one.
\<close>

theorem decode_url_escapes_fail:
  "decode_url (asc ''http://a/b%20c.jpg?x='' @ [92]) = asc ''http://a/b%20c.jpg?x='' @ [92] \<and>
   32 \<notin> set (asc ''http://a/b%20c.jpg?x='' @ [92]) \<and>
   decode_url (asc ''http://a/b.jpg?x'' @ [92, 92] @ asc ''u003d'') = asc ''http://a/b.jpg?x'' @ [92] @ asc ''u003d'' \<and>
   61 \<notin> set (asc ''http://a/b.jpg?x'' @ [92] @ asc ''u003d'') \<and>
   decode_url (asc ''http://a/caf'' @ [233] @ asc ''.jpg'') = asc ''http://a/caf'' @ [195, 169] @ asc ''.jpg''"
  by (simp add: decode_defs)

section \<open>Properties of merging, truncating and cleaning\<close>

subsection \<open>The dictionary keeps first occurrences\<close>

lemma first_occurrences_Nil [simp]: "first_occurrences [] = []"
  by (simp add: first_occurrences_def)

lemma first_occurrences_snoc:
  "first_occurrences (xs @ [x]) = first_occurrences xs @ (if x \<in> set xs then [] else [x])"
  by (auto simp: first_occurrences_def nth_append intro!: map_cong filter_cong)

lemma set_first_occurrences [simp]: "set (first_occurrences xs) = set xs"
  by (induction xs rule: rev_induct) (auto simp: first_occurrences_snoc)

lemma distinct_first_occurrences [simp]: "distinct (first_occurrences xs)"
  by (induction xs rule: rev_induct) (auto simp: first_occurrences_snoc)

lemma fromkeys_first_occurrences:
  "fromkeys (first_occurrences ys) xs = first_occurrences (ys @ xs)"
proof (induction xs arbitrary: ys)
  case Nil
  then show ?case by simp
next
  case (Cons x xs)
  have "fromkeys (first_occurrences ys) (x # xs) = fromkeys (first_occurrences (ys @ [x])) xs"
    by (simp add: first_occurrences_snoc)
  also have "\<dots> = first_occurrences ((ys @ [x]) @ xs)"
    by (rule Cons.IH)
  finally show ?case by simp
qed

lemma dict_fromkeys_first_occurrences: "dict_fromkeys xs = first_occurrences xs"
  using fromkeys_first_occurrences [of "[]" xs] by (simp add: dict_fromkeys_def)

lemma first_occurrences_distinct: "distinct xs \<Longrightarrow> first_occurrences xs = xs"
  by (induction xs rule: rev_induct) (auto simp: first_occurrences_snoc)

lemma first_occurrences_append:
  "first_occurrences (p @ f) = first_occurrences p @ filter (\<lambda>x. x \<notin> set p) (first_occurrences f)"
  by (induction f rule: rev_induct) (auto simp: first_occurrences_snoc simp flip: append_assoc)

lemma clean_loop_map: "clean_loop acc urls = acc @ map decode_url urls"
  by (induction urls arbitrary: acc) (auto simp: decode_url_def split: sum.splits)

lemma clean_urls_map: "clean_urls urls = map decode_url urls"
  by (simp add: clean_urls_def clean_loop_map)

lemma length_first_occurrences: "length (first_occurrences xs) = card (set xs)"
  using distinct_card [of "first_occurrences xs"] by simp

lemma slice_to_nonneg: "0 \<le> n \<Longrightarrow> slice_to xs n = take (nat n) xs"
  by (simp add: slice_to_def)

lemma merge_pre:
  assumes "distinct p" "0 \<le> n"
  shows "slice_to (if int (length p) < n then dict_fromkeys (p @ f) else p) n
           = take (nat n) (first_occurrences (p @ f))"
proof (cases "int (length p) < n")
  case True
  with assms show ?thesis by (simp add: slice_to_nonneg dict_fromkeys_first_occurrences)
next
  case False
  with assms have le: "nat n \<le> length p" by simp
  have "take (nat n) (first_occurrences (p @ f)) = take (nat n) p"
    using le assms(1) by (simp add: first_occurrences_append first_occurrences_distinct)
  with False assms show ?thesis by (simp add: slice_to_nonneg)
qed

text \<open>
  C3, as the code has it. The text scan delivers a duplicate-free list \<open>p\<close>. For such a
  \<open>p\<close>, every list \<open>f\<close> of clicked URLs and every target count \<open>n \<ge> 0\<close>, the result is
  the entry-wise normalization of the first \<open>n\<close> first occurrences of \<open>p\<close> followed by
  \<open>f\<close>; that list of first occurrences is duplicate-free, and the result has exactly
  \<open>min n d\<close> entries, \<open>d\<close> the number of distinct strings in \<open>p\<close> followed by \<open>f\<close>.
  Duplicates are removed before the normalization, not after it.
\<close>

theorem merge_and_finalize_first_occurrences:
  assumes "distinct p" and "0 \<le> n"
  shows "merge_and_finalize p f n = map decode_url (take (nat n) (first_occurrences (p @ f))) \<and>
         distinct (take (nat n) (first_occurrences (p @ f))) \<and>
         length (merge_and_finalize p f n) = min (nat n) (card (set (p @ f)))"
proof -
  have eq: "merge_and_finalize p f n = map decode_url (take (nat n) (first_occurrences (p @ f)))"
    using merge_pre [OF assms, of f] by (simp add: merge_and_finalize_def clean_urls_map)
  have "length (merge_and_finalize p f n) = min (nat n) (card (set (p @ f)))"
    unfolding eq by (simp add: length_first_occurrences min.commute del: set_append)
  with eq show ?thesis by simp
qed

text \<open>
  An instance: two text-scan URLs, two clicked URLs of which one repeats a text-scan
  URL, target count 2.
\<close>

theorem merge_and_finalize_witness:
  "distinct [asc ''http://a/b%20c.jpg'', asc ''http://a/d.png''] \<and> (0::int) \<le> 2 \<and>
   merge_and_finalize [asc ''http://a/b%20c.jpg'', asc ''http://a/d.png''] [asc ''http://a/d.png'', asc ''http://e/f.gif''] 2
     = [asc ''http://a/b c.jpg'', asc ''http://a/d.png'']"
  using merge_and_finalize_first_occurrences [of "[asc ''http://a/b%20c.jpg'', asc ''http://a/d.png'']" 2
      "[asc ''http://a/d.png'', asc ''http://e/f.gif'']"]
  by (simp add: merge_defs decode_defs)

text \<open>
  The result itself can hold a string twice: \<open>%41\<close> and \<open>A\<close> are different before the
  normalization and equal after it. And a primary list that already holds a string
  twice and is as long as the target count is never passed through the dictionary.
\<close>

theorem merge_and_finalize_duplicates:
  "\<not> distinct (merge_and_finalize [asc ''http://a/%41.jpg'', asc ''http://a/A.jpg''] [] 2) \<and>
   length (merge_and_finalize [asc ''http://a/b.jpg'', asc ''http://a/b.jpg''] [] 2)
     \<noteq> min 2 (card (set ([asc ''http://a/b.jpg'', asc ''http://a/b.jpg''] @ [])))"
  by (simp add: merge_defs decode_defs)

text \<open>
  C7. When the normalization of one URL raises, the cleaning loop puts the URL itself
  at that place and goes on: the entries before and after it are cleaned as they are
  without it, so the batch is never aborted and no other entry changes.
\<close>

theorem clean_urls_failure_isolated:
  assumes "normalize u = Inl e"
  shows "clean_urls (pre @ u # post) = clean_urls pre @ u # clean_urls post \<and>
         clean_urls (pre @ post) = clean_urls pre @ clean_urls post"
  using assms by (simp add: clean_urls_map decode_url_def)

text \<open>
  An instance: the middle URL ends in a backslash, which \<open>unicode_escape\<close> refuses.
\<close>

theorem clean_urls_failure_isolated_witness:
  "normalize (asc ''http://a/b.jpg?x='' @ [92]) = Inl UnicodeDecodeError \<and>
   clean_urls ([asc ''http://a/c%20d.jpg''] @ (asc ''http://a/b.jpg?x='' @ [92]) # [asc ''http://a/e.png''])
     = [asc ''http://a/c d.jpg'', asc ''http://a/b.jpg?x='' @ [92], asc ''http://a/e.png'']"
proof -
  have f: "normalize (asc ''http://a/b.jpg?x='' @ [92]) = Inl UnicodeDecodeError"
    by (simp add: decode_defs)
  show ?thesis
    using f clean_urls_failure_isolated [OF f, of "[asc ''http://a/c%20d.jpg'']" "[asc ''http://a/e.png'']"]
    by (simp add: clean_urls_map decode_defs)
qed

subsection \<open>Running the post-processing again\<close>

lemma dict_fromkeys_idem: "dict_fromkeys (dict_fromkeys xs) = dict_fromkeys xs"
  by (simp add: dict_fromkeys_first_occurrences first_occurrences_distinct)

lemma slice_to_idem: "0 \<le> n \<Longrightarrow> slice_to (slice_to xs n) n = slice_to xs n"
  by (simp add: slice_to_nonneg)

lemma length_merge_le: "0 \<le> n \<Longrightarrow> length (merge_and_finalize p f n) \<le> nat n"
  by (simp add: merge_and_finalize_def clean_urls_map slice_to_nonneg Let_def)

text \<open>
  C5, as the code has it. Removing duplicates is idempotent, and so is cutting to a
  target count \<open>n \<ge> 0\<close>. Normalization is not: a finalized list is returned unchanged
  by a second run (with no clicked URLs and the same \<open>n \<ge> 0\<close>) when its entries are
  pairwise different and each of them is left unchanged by \<open>decode_url\<close>.
\<close>

theorem finalize_again_fixed:
  "dict_fromkeys (dict_fromkeys xs) = dict_fromkeys xs \<and>
   (0 \<le> n \<longrightarrow> slice_to (slice_to xs n) n = slice_to xs n) \<and>
   (0 \<le> n \<and> distinct (merge_and_finalize p f n) \<and>
    (\<forall>u \<in> set (merge_and_finalize p f n). decode_url u = u)
      \<longrightarrow> merge_and_finalize (merge_and_finalize p f n) [] n = merge_and_finalize p f n)"
proof -
  have "merge_and_finalize out [] n = out"
    if n: "0 \<le> n" and d: "distinct out" and fx: "\<forall>u \<in> set out. decode_url u = u"
      and len: "length out \<le> nat n" for out
  proof -
    have "slice_to (if int (length out) < n then dict_fromkeys (out @ []) else out) n = out"
      using n d len by (simp add: slice_to_nonneg dict_fromkeys_first_occurrences first_occurrences_distinct)
    moreover have "map decode_url out = out"
      using fx by (simp add: map_idI)
    ultimately show ?thesis
      by (simp add: merge_and_finalize_def clean_urls_map)
  qed
  then show ?thesis
    using length_merge_le [of n p f] by (simp add: dict_fromkeys_idem slice_to_idem)
qed

text \<open>An instance: the finalized list holds a URL with a space and one without escapes.\<close>

theorem finalize_again_fixed_witness:
  "(0::int) \<le> 2 \<and>
   merge_and_finalize [asc ''http://a/b%20c.jpg''] [asc ''http://a/d.png''] 2
     = [asc ''http://a/b c.jpg'', asc ''http://a/d.png''] \<and>
   distinct [asc ''http://a/b c.jpg'', asc ''http://a/d.png''] \<and>
   decode_url (asc ''http://a/b c.jpg'') = asc ''http://a/b c.jpg'' \<and>
   decode_url (asc ''http://a/d.png'') = asc ''http://a/d.png'' \<and>
   merge_and_finalize (merge_and_finalize [asc ''http://a/b%20c.jpg''] [asc ''http://a/d.png''] 2) [] 2
     = [asc ''http://a/b c.jpg'', asc ''http://a/d.png'']"
proof -
  have m: "merge_and_finalize [asc ''http://a/b%20c.jpg''] [asc ''http://a/d.png''] 2
             = [asc ''http://a/b c.jpg'', asc ''http://a/d.png'']"
    by (simp add: merge_defs decode_defs)
  have d: "distinct [asc ''http://a/b c.jpg'', asc ''http://a/d.png'']"
    by (simp add: asc_def)
  have f1: "decode_url (asc ''http://a/b c.jpg'') = asc ''http://a/b c.jpg''"
    by (simp add: decode_defs)
  have f2: "decode_url (asc ''http://a/d.png'') = asc ''http://a/d.png''"
    by (simp add: decode_defs)
  have h: "distinct (merge_and_finalize [asc ''http://a/b%20c.jpg''] [asc ''http://a/d.png''] 2) \<and>
           (\<forall>u \<in> set (merge_and_finalize [asc ''http://a/b%20c.jpg''] [asc ''http://a/d.png''] 2). decode_url u = u)"
    unfolding m using d f1 f2 by simp
  have "merge_and_finalize (merge_and_finalize [asc ''http://a/b%20c.jpg''] [asc ''http://a/d.png''] 2) [] 2
          = merge_and_finalize [asc ''http://a/b%20c.jpg''] [asc ''http://a/d.png''] 2"
    using h finalize_again_fixed [of "[]::ustr list" 2 "[asc ''http://a/b%20c.jpg'']" "[asc ''http://a/d.png'']"]
    by simp
  with m d f1 f2 show ?thesis by simp
qed

text \<open>
  A URL whose percent sign is itself percent-encoded is decoded once more by every
  run: \<open>%2520\<close> becomes \<open>%20\<close>, and \<open>%20\<close> becomes a space.
\<close>

theorem finalize_again_changes:
  "merge_and_finalize (merge_and_finalize [asc ''http://a/b%2520c.jpg''] [] 1) [] 1
     \<noteq> merge_and_finalize [asc ''http://a/b%2520c.jpg''] [] 1"
  by (simp add: merge_defs decode_defs)

section \<open>Properties of the pattern filter\<close>

text \<open>
  C1, as the code has it. \<open>filter_thumbnail_urls\<close> takes a URL \<open>u\<close> for a thumbnail
  exactly when some pattern of the blocklist \<open>B\<close> occurs as a substring of the
  lower-cased URL \<open>u.lower()\<close>: the URL is folded to lower case, the patterns are not.
  For the empty blocklist no URL is a thumbnail. The condition of the script for a
  match in a script element keeps \<open>u\<close> exactly when none of the nine default patterns
  occurs in \<open>u\<close> itself, case-sensitively.
\<close>

theorem is_thumbnail_lowercased:
  "(is_thumbnail u B \<longleftrightarrow> (\<exists>p \<in> set B. sublist p (str_lower u))) \<and>
   \<not> is_thumbnail u [] \<and>
   (script_url_kept u \<longleftrightarrow> \<not> (\<exists>p \<in> set default_blocklist. sublist p u))"
  by (simp add: is_thumbnail_def list_ex_iff str_includes_def script_url_kept_def default_blocklist_def)

text \<open>An instance: the pattern \<open>logo\<close> and a URL that holds \<open>LOGO\<close>.\<close>

theorem is_thumbnail_lowercased_witness:
  "sublist (asc ''logo'') (str_lower (asc ''http://a/LOGO.png'')) \<and>
   is_thumbnail (asc ''http://a/LOGO.png'') [asc ''logo''] \<and>
   script_url_kept (asc ''http://a/LOGO.png'')"
proof -
  have s: "sublist (asc ''logo'') (str_lower (asc ''http://a/LOGO.png''))"
    by (simp add: asc_def str_lower_def ascii_lower_def sublist_Cons_right)
  have n: "\<not> (\<exists>p \<in> set default_blocklist. sublist p (asc ''http://a/LOGO.png''))"
    by (simp add: asc_def default_blocklist_def sublist_Cons_right)
  from s n is_thumbnail_lowercased [of "asc ''http://a/LOGO.png''" "[asc ''logo'']"]
  show ?thesis by simp
qed

text \<open>
  The URL holds \<open>LOGO\<close> and not \<open>logo\<close>; \<open>filter_thumbnail_urls\<close> takes it for a
  thumbnail all the same.
\<close>

theorem is_thumbnail_folds_case:
  "is_thumbnail (asc ''http://a/LOGO.png'') [asc ''logo''] \<and>
   \<not> sublist (asc ''logo'') (asc ''http://a/LOGO.png'')"
  by (simp add: filter_defs asc_def sublist_Cons_right)

section \<open>Properties of a session\<close>

subsection \<open>The click fallback\<close>

lemma click_loop_trace:
  "click_loop n cs (clicked, trace) = (clicked', trace') \<Longrightarrow>
     (\<exists>more. trace' = trace @ more \<and> list_all fallback_event more)"
proof (induction cs arbitrary: clicked trace)
  case Nil
  then show ?case by simp
next
  case (Cons ic cs)
  obtain i c where ic: "ic = (i, c)" by (cases ic)
  show ?case
  proof (cases "int (length clicked) \<ge> n")
    case True
    with Cons.prems ic show ?thesis by simp
  next
    case False
    show ?thesis
    proof (cases "click c")
      case Raised
      with Cons.prems ic False
      have "click_loop n cs (clicked, trace @ [Click i]) = (clicked', trace')" by simp
      from Cons.IH [OF this] show ?thesis by auto
    next
      case (Returned u)
      let ?cl = "case try_selectors (located c) full_img_selectors of
                   None \<Rightarrow> clicked | Some img_src \<Rightarrow> clicked @ [img_src]"
      from Cons.prems ic False Returned
      have "click_loop n cs (?cl, trace @ [Click i, PressEscape]) = (clicked', trace')" by simp
      from Cons.IH [OF this] show ?thesis by auto
    qed
  qed
qed

lemma extract_by_clicking_trace:
  assumes "extract_by_clicking pg n = (clicked, trace)"
  shows "trace \<noteq> [] \<and> list_all fallback_event trace"
proof -
  from assms click_loop_trace obtain more where
    "trace = (replicate (scroll_attempts n) ScrollToBottom @ [LocateContainers]) @ more"
    "list_all fallback_event more"
    unfolding extract_by_clicking_def Let_def by blast
  then show ?thesis by (auto simp: list_all_iff)
qed


text \<open>
  C9. In a session that returns, the steps of the click fallback (scrolling, looking
  for the containers, clicking, pressing Escape) are taken exactly when the text scan
  found fewer URLs than \<open>number_of_images\<close>. Otherwise the result is the text-scan
  list cut to \<open>number_of_images\<close> and cleaned, and the browser only loads the page,
  evaluates the script and closes the page.
\<close>

theorem fallback_iff_too_few:
  assumes "find_image_urls pg n = Inr (urls, trace)"
  shows "(list_ex fallback_event trace \<longleftrightarrow> int (length (text_scan (doc pg))) < n) \<and>
         (\<not> int (length (text_scan (doc pg))) < n \<longrightarrow>
            urls = clean_urls (slice_to (text_scan (doc pg)) n) \<and> trace = [Goto, Evaluate, ClosePage])"
proof (cases "int (length (text_scan (doc pg))) < n")
  case True
  with assms obtain clicked tr where e: "extract_by_clicking pg n = (clicked, tr)"
    and t: "trace = [Goto, Evaluate] @ tr @ [ClosePage]"
    by (auto simp: find_image_urls_def Let_def split: outcome.splits prod.splits)
  from extract_by_clicking_trace [OF e] obtain ev rest where "tr = ev # rest" "fallback_event ev"
    by (cases tr) auto
  with t True show ?thesis by simp
next
  case False
  with assms show ?thesis
    by (auto simp: find_image_urls_def Let_def split: outcome.splits)
qed

lemma text_scan_meta_page: "text_scan (doc meta_page) = [asc ''http://a/b%20c.jpg'']"
  by (simp add: meta_page_def session_defs scan_defs filter_defs sublist_Cons_right)

text \<open>
  Two sessions on the same page, whose text scan finds one URL: with target count 1
  the fallback does not run, with target count 2 it scrolls three times.
\<close>

theorem fallback_iff_too_few_witness:
  "find_image_urls meta_page 1 = Inr ([asc ''http://a/b c.jpg''], [Goto, Evaluate, ClosePage]) \<and>
   \<not> list_ex fallback_event [Goto, Evaluate, ClosePage] \<and>
   length (text_scan (doc meta_page)) = 1 \<and>
   find_image_urls meta_page 2
     = Inr ([asc ''http://a/b c.jpg''],
            [Goto, Evaluate, ScrollToBottom, ScrollToBottom, ScrollToBottom, LocateContainers, ClosePage]) \<and>
   list_ex fallback_event
     [Goto, Evaluate, ScrollToBottom, ScrollToBottom, ScrollToBottom, LocateContainers, ClosePage]"
proof -
  have one: "find_image_urls meta_page 1 = Inr ([asc ''http://a/b c.jpg''], [Goto, Evaluate, ClosePage])"
    unfolding find_image_urls_def text_scan_meta_page
    by (simp add: meta_page_def merge_defs decode_defs)
  have two: "find_image_urls meta_page 2
     = Inr ([asc ''http://a/b c.jpg''],
            [Goto, Evaluate, ScrollToBottom, ScrollToBottom, ScrollToBottom, LocateContainers, ClosePage])"
    unfolding find_image_urls_def text_scan_meta_page
    by (simp add: meta_page_def extract_by_clicking_def scroll_attempts_def merge_defs decode_defs
          numeral_3_eq_3)
  from fallback_iff_too_few [OF one] fallback_iff_too_few [OF two] one two
  show ?thesis by (simp add: text_scan_meta_page)
qed

subsection \<open>The patterns in the final list\<close>

lemma set_insert_sorted [simp]: "set (insert_sorted cmp x ys) = insert x (set ys)"
  by (induction ys) auto

lemma set_js_sort [simp]: "set (js_sort cmp xs) = set xs"
  by (induction xs) (simp_all add: js_sort_def)

lemma fromkeys_Nil_first_occurrences: "fromkeys [] xs = first_occurrences xs"
  using dict_fromkeys_first_occurrences [of xs] by (simp add: dict_fromkeys_def)

lemma set_text_scan: "set (text_scan d) = set (full_res_urls d)"
  by (simp add: text_scan_def fromkeys_Nil_first_occurrences)

lemma script_urls_kept: "u \<in> set (script_urls s) \<Longrightarrow> script_url_kept u"
  by (auto simp: script_urls_def Let_def split: if_splits)

lemma meta_urls_kept: "u \<in> set (meta_urls m) \<Longrightarrow> meta_url_kept u"
proof -
  assume u: "u \<in> set (meta_urls m)"
  let ?content = "case m of None \<Rightarrow> [] | Some c \<Rightarrow> c"
  let ?cond = "str_includes ?content (asc ''http'') \<and>
         (str_includes ?content (asc ''.jpg'') \<or> str_includes ?content (asc ''.png''))"
  have eq: "meta_urls m =
     (if ?cond then (case match_first meta_class False ?content of
              None \<Rightarrow> []
            | Some url \<Rightarrow> if meta_url_kept url then [url] else [])
      else [])"
    by (simp add: meta_urls_def Let_def)
  show ?thesis
  proof (cases ?cond)
    case False
    with u eq show ?thesis by simp
  next
    case True
    show ?thesis
    proof (cases "match_first meta_class False ?content")
      case None
      with u eq True show ?thesis by simp
    next
      case (Some url)
      show ?thesis
      proof (cases "meta_url_kept url")
        case True
        with u eq \<open>?cond\<close> Some show ?thesis by simp
      next
        case False
        with u eq \<open>?cond\<close> Some show ?thesis by simp
      qed
    qed
  qed
qed

lemma html_urls_kept: "u \<in> set (html_urls t) \<Longrightarrow> html_url_kept u"
  by (auto simp: html_urls_def)

lemma full_res_urls_no_tbn:
  "u \<in> set (full_res_urls d) \<Longrightarrow> \<not> sublist (asc ''encrypted-tbn'') u"
  by (auto simp: full_res_urls_def str_includes_def
           dest!: script_urls_kept meta_urls_kept html_urls_kept
           simp: script_url_kept_def meta_url_kept_def html_url_kept_def)

lemma try_selectors_accepted:
  "try_selectors loc sels = Some u \<Longrightarrow> src_accepted (Some u)"
  by (induction sels) (auto split: outcome.splits if_splits)

lemma click_loop_invariant:
  assumes "click_loop n cs (clicked, trace) = (clicked', trace')"
    and "\<forall>u \<in> set clicked. src_accepted (Some u)"
  shows "\<forall>u \<in> set clicked'. src_accepted (Some u)"
  using assms
proof (induction cs arbitrary: clicked trace)
  case Nil
  then show ?case by simp
next
  case (Cons ic cs)
  obtain i c where ic: "ic = (i, c)" by (cases ic)
  show ?case
  proof (cases "int (length clicked) \<ge> n")
    case True
    with Cons.prems ic show ?thesis by simp
  next
    case False
    show ?thesis
    proof (cases "click c")
      case Raised
      with Cons.prems ic False
      have "click_loop n cs (clicked, trace @ [Click i]) = (clicked', trace')" by simp
      from Cons.IH [OF this Cons.prems(2)] show ?thesis .
    next
      case (Returned u)
      let ?cl = "case try_selectors (located c) full_img_selectors of
                   None \<Rightarrow> clicked | Some img_src \<Rightarrow> clicked @ [img_src]"
      from Cons.prems ic False Returned
      have step: "click_loop n cs (?cl, trace @ [Click i, PressEscape]) = (clicked', trace')" by simp
      have "\<forall>u \<in> set ?cl. src_accepted (Some u)"
        using Cons.prems(2) by (auto split: option.splits dest: try_selectors_accepted)
      from Cons.IH [OF step this] show ?thesis .
    qed
  qed
qed

lemma clicked_no_tbn:
  "u \<in> set (fst (extract_by_clicking pg n)) \<Longrightarrow> \<not> sublist (asc ''encrypted-tbn'') u"
proof -
  obtain clicked trace where e: "extract_by_clicking pg n = (clicked, trace)"
    by (cases "extract_by_clicking pg n")
  then have "\<forall>u \<in> set clicked. src_accepted (Some u)"
    unfolding extract_by_clicking_def Let_def
    by (rule click_loop_invariant) simp
  moreover assume "u \<in> set (fst (extract_by_clicking pg n))"
  ultimately show ?thesis
    using e by (auto simp: src_accepted_def str_includes_def)
qed

lemma set_slice_to: "set (slice_to xs n) \<subseteq> set xs"
  by (auto simp: slice_to_def dest: in_set_takeD)

lemma image_urls_sources:
  "u \<in> set (image_urls pg n) \<Longrightarrow>
     u \<in> set (full_res_urls (doc pg)) \<or> u \<in> set (fst (extract_by_clicking pg n))"
  using set_slice_to [of _ n] set_first_occurrences
  by (fastforce simp: image_urls_def Let_def dict_fromkeys_first_occurrences set_text_scan
                split: if_splits)

lemma find_image_urls_result:
  "find_image_urls pg n = Inr (urls, trace) \<Longrightarrow> urls = clean_urls (image_urls pg n)"
  by (auto simp: find_image_urls_def image_urls_def Let_def split: outcome.splits prod.splits if_splits)

text \<open>
  C2, as the code has it. In a session that returns, the final list is the entry-wise
  normalization of \<open>image_urls\<close>, and no URL of \<open>image_urls\<close> holds \<open>encrypted-tbn\<close>:
  that pattern is the only one that every path tests, and it is tested before the
  normalization. The scan of a script element is the only path that tests all nine
  default patterns: no URL it contributes holds any of them.
\<close>

theorem final_urls_filtered:
  assumes "find_image_urls pg n = Inr (urls, trace)"
  shows "urls = map decode_url (image_urls pg n) \<and>
         (\<forall>u \<in> set (image_urls pg n). \<not> sublist (asc ''encrypted-tbn'') u) \<and>
         (\<forall>s \<in> set (scripts (doc pg)). \<forall>u \<in> set (script_urls s).
            \<forall>p \<in> set default_blocklist. \<not> sublist p u)"
proof -
  have "urls = map decode_url (image_urls pg n)"
    using find_image_urls_result [OF assms] by (simp add: clean_urls_map)
  moreover have "\<forall>u \<in> set (image_urls pg n). \<not> sublist (asc ''encrypted-tbn'') u"
    using image_urls_sources full_res_urls_no_tbn clicked_no_tbn by blast
  moreover have "\<forall>s \<in> set (scripts (doc pg)). \<forall>u \<in> set (script_urls s).
                   \<forall>p \<in> set default_blocklist. \<not> sublist p u"
    using script_urls_kept
    by (fastforce simp: script_url_kept_def str_includes_def default_blocklist_def)
  ultimately show ?thesis by blast
qed

lemma text_scan_logo_page: "text_scan (doc logo_page) = [asc ''http://a/logo.jpg'']"
  by (simp add: logo_page_def session_defs scan_defs filter_defs sublist_Cons_right)

lemma text_scan_escaped_page: "text_scan (doc escaped_page) = [asc ''http://a/encrypted%2Dtbn.jpg'']"
  by (simp add: escaped_page_def session_defs scan_defs filter_defs sublist_Cons_right)

text \<open>An instance: the session on the first example page, target count 1.\<close>

theorem final_urls_filtered_witness:
  "find_image_urls meta_page 1 = Inr ([asc ''http://a/b c.jpg''], [Goto, Evaluate, ClosePage]) \<and>
   image_urls meta_page 1 = [asc ''http://a/b%20c.jpg''] \<and>
   \<not> sublist (asc ''encrypted-tbn'') (asc ''http://a/b%20c.jpg'')"
proof -
  have one: "find_image_urls meta_page 1 = Inr ([asc ''http://a/b c.jpg''], [Goto, Evaluate, ClosePage])"
    unfolding find_image_urls_def text_scan_meta_page
    by (simp add: meta_page_def merge_defs decode_defs)
  have im: "image_urls meta_page 1 = [asc ''http://a/b%20c.jpg'']"
    unfolding image_urls_def text_scan_meta_page by (simp add: slice_to_def)
  from final_urls_filtered [OF one] one im show ?thesis by simp
qed

text \<open>
  The final list of a session can hold a blocklisted pattern: the URL of a \<open>meta\<close>
  element is only tested for \<open>encrypted-tbn\<close>, so \<open>logo\<close> passes; and a URL that
  holds \<open>encrypted%2Dtbn\<close> passes every test and is normalized to \<open>encrypted-tbn\<close>.
\<close>

theorem final_urls_blocked:
  "find_image_urls logo_page 1 = Inr ([asc ''http://a/logo.jpg''], [Goto, Evaluate, ClosePage]) \<and>
   sublist (asc ''logo'') (asc ''http://a/logo.jpg'') \<and>
   find_image_urls escaped_page 1 = Inr ([asc ''http://a/encrypted-tbn.jpg''], [Goto, Evaluate, ClosePage]) \<and>
   sublist (asc ''encrypted-tbn'') (asc ''http://a/encrypted-tbn.jpg'')"
proof -
  have a: "find_image_urls logo_page 1 = Inr ([asc ''http://a/logo.jpg''], [Goto, Evaluate, ClosePage])"
    unfolding find_image_urls_def text_scan_logo_page
    by (simp add: logo_page_def merge_defs decode_defs)
  have b: "find_image_urls escaped_page 1 = Inr ([asc ''http://a/encrypted-tbn.jpg''], [Goto, Evaluate, ClosePage])"
    unfolding find_image_urls_def text_scan_escaped_page
    by (simp add: escaped_page_def merge_defs decode_defs)
  show ?thesis
    using a b by (simp add: asc_def sublist_Cons_right)
qed

section \<open>Properties of the text scan\<close>

subsection \<open>The shape of a match\<close>

lemma ci_eq_lower: "ci_eq p c \<Longrightarrow> \<not> (65 \<le> p \<and> p \<le> 90) \<Longrightarrow> ascii_lower c = p"
  by (auto simp: ci_eq_def ascii_lower_def)

lemma ci_eq_meta_class: "ci_eq p c \<Longrightarrow> meta_class p \<Longrightarrow> meta_class c"
  by (auto simp: ci_eq_def meta_class_def js_whitespace_def)

lemma ci_prefix_take:
  "ci_prefix p s \<Longrightarrow> \<forall>c \<in> set p. \<not> (65 \<le> c \<and> c \<le> 90) \<and> meta_class c \<Longrightarrow>
     length p \<le> length s \<and> map ascii_lower (take (length p) s) = p \<and>
     list_all meta_class (take (length p) s)"
  by (induction p s rule: ci_prefix.induct) (auto simp: ci_eq_lower ci_eq_meta_class)

lemma match_scheme_Some:
  assumes "match_scheme s = Some n0"
  shows "n0 \<le> length s \<and>
         (map ascii_lower (take n0 s) = asc ''http://'' \<or> map ascii_lower (take n0 s) = asc ''https://'') \<and>
         list_all meta_class (take n0 s)"
proof -
  have safe: "\<forall>c \<in> set (asc ''https://''). \<not> (65 \<le> c \<and> c \<le> 90) \<and> meta_class c"
    "\<forall>c \<in> set (asc ''http://''). \<not> (65 \<le> c \<and> c \<le> 90) \<and> meta_class c"
    by (simp_all add: asc_def meta_class_def js_whitespace_def)
  have len: "length (asc ''https://'') = 8" "length (asc ''http://'') = 7"
    by (simp_all add: asc_def)
  show ?thesis
  proof (cases "ci_prefix (asc ''https://'') s")
    case True
    with assms have "n0 = 8" by (simp add: match_scheme_def)
    with ci_prefix_take [OF True safe(1)] len show ?thesis by simp
  next
    case False
    with assms have p: "ci_prefix (asc ''http://'') s" and "n0 = 7"
      by (auto simp: match_scheme_def split: if_splits)
    with ci_prefix_take [OF p safe(2)] len show ?thesis by simp
  qed
qed

lemma match_ext_Some:
  assumes "match_ext s = Some n"
  shows "\<exists>ext rest. s = 46 # ext @ rest \<and> n = 1 + length ext \<and>
           map ascii_lower ext \<in> set extensions \<and> list_all meta_class ext"
proof -
  from assms obtain r where s: "s = 46 # r"
    by (cases s) (auto simp: match_ext_def split: if_splits)
  from assms s obtain e es where f: "filter (\<lambda>e. ci_prefix e r) extensions = e # es"
    and n: "n = 1 + length e"
    by (auto simp: match_ext_def split: list.splits)
  from f have "e \<in> set (filter (\<lambda>e. ci_prefix e r) extensions)" by simp
  then have e: "e \<in> set extensions" and p: "ci_prefix e r" by auto
  from e have "\<forall>c \<in> set e. 97 \<le> c \<and> c \<le> 122"
    by (auto simp: extensions_def asc_def)
  then have "\<forall>c \<in> set e. \<not> (65 \<le> c \<and> c \<le> 90) \<and> meta_class c"
    by (auto simp: meta_class_def js_whitespace_def)
  from ci_prefix_take [OF p this]
  have "length e \<le> length r" "map ascii_lower (take (length e) r) = e"
    "list_all meta_class (take (length e) r)" by simp_all
  then have "s = 46 # take (length e) r @ drop (length e) r \<and>
             n = 1 + length (take (length e) r) \<and>
             map ascii_lower (take (length e) r) \<in> set extensions \<and>
             list_all meta_class (take (length e) r)"
    using s n e by simp
  then show ?thesis by blast
qed

lemma greedy_body_Some:
  "greedy_body cls r = Some (k, n) \<Longrightarrow>
     k \<le> length r \<and> list_all cls (take k r) \<and> match_ext (drop k r) = Some n"
proof (induction r arbitrary: k n)
  case Nil
  then show ?case by simp
next
  case (Cons c r)
  show ?case
  proof (cases "cls c \<and> greedy_body cls r \<noteq> None")
    case True
    then obtain k' n' where g: "greedy_body cls r = Some (k', n')" by auto
    with Cons.prems True have "k = Suc k'" "n = n'" by auto
    with Cons.IH [OF g] True show ?thesis by simp
  next
    case False
    then have "(if cls c then greedy_body cls r else None) = None"
      by (cases "greedy_body cls r") auto
    with Cons.prems have "match_ext (c # r) = Some n" "k = 0"
      by (auto split: option.splits)
    then show ?thesis by simp
  qed
qed

lemma query_len_take:
  assumes "\<forall>c. cls c \<longrightarrow> meta_class c"
  shows "(take (query_len cls s) s = [] \<or> hd (take (query_len cls s) s) = 63
            \<or> hd (take (query_len cls s) s) = 38) \<and>
         list_all meta_class (take (query_len cls s) s)"
proof (cases s)
  case Nil
  then show ?thesis by (simp add: query_len_def)
next
  case (Cons c r)
  show ?thesis
  proof (cases "c = 63 \<or> c = 38")
    case False
    with Cons show ?thesis by (simp add: query_len_def)
  next
    case True
    have "take (length (takeWhile cls r)) r = takeWhile cls r"
      by (metis takeWhile_eq_take)
    moreover have "list_all meta_class (takeWhile cls r)"
      using assms by (auto simp: list_all_iff dest: set_takeWhileD)
    moreover have "meta_class c"
      using True by (auto simp: meta_class_def js_whitespace_def)
    ultimately show ?thesis
      using Cons True by (auto simp: query_len_def)
  qed
qed

lemma match_at_shape:
  assumes "match_at cls wq s = Some n" and cls: "\<forall>c. cls c \<longrightarrow> meta_class c"
  shows "image_url_shape (take n s)"
proof -
  from assms(1) obtain n0 c r k nx where n0: "match_scheme s = Some n0"
    and dr: "drop n0 s = c # r" and c: "cls c"
    and g: "greedy_body cls r = Some (k, nx)"
    and n: "n = n0 + 1 + k + nx + (if wq then query_len cls (drop (n0 + 1 + k + nx) s) else 0)"
    by (auto simp: match_at_def Let_def split: option.splits list.splits if_splits prod.splits)
  note sch = match_scheme_Some [OF n0]
  note bd = greedy_body_Some [OF g]
  from bd obtain ext rest where ex: "drop k r = 46 # ext @ rest" and nx: "nx = 1 + length ext"
    and el: "map ascii_lower ext \<in> set extensions" and em: "list_all meta_class ext"
    using match_ext_Some by blast
  let ?scheme = "take n0 s" and ?body = "c # take k r"
  let ?ql = "if wq then query_len cls rest else 0"
  have r: "r = take k r @ 46 # ext @ rest"
    using ex by (metis append_take_drop_id)
  have s: "s = ?scheme @ ?body @ [46] @ ext @ rest"
    using dr r by (metis append_take_drop_id append_Cons append_Nil)
  have len: "length (?scheme @ ?body @ [46] @ ext) = n0 + 1 + k + nx"
    using sch bd nx by simp
  then have drop_m: "drop (n0 + 1 + k + nx) s = rest"
    using s by (metis append.assoc append_eq_conv_conj)
  have tk: "take n s = ?scheme @ ?body @ [46] @ ext @ take ?ql rest"
  proof -
    have "n = length (?scheme @ ?body @ [46] @ ext) + ?ql"
      using n len drop_m by simp
    moreover have "s = (?scheme @ ?body @ [46] @ ext) @ rest"
      using s by simp
    ultimately show ?thesis
      by (metis append.assoc take_append diff_add_inverse take_all order_refl
          le_add1 append_Nil2 take_all_iff)
  qed
  have q: "(take ?ql rest = [] \<or> hd (take ?ql rest) = 63 \<or> hd (take ?ql rest) = 38) \<and>
           list_all meta_class (take ?ql rest)"
    using query_len_take [OF cls, of rest] by simp
  have "list_all meta_class ?body"
    using c cls bd by (auto simp: list_all_iff)
  moreover have "meta_class 46" by (simp add: meta_class_def js_whitespace_def)
  ultimately have all: "list_all meta_class (take n s)"
    unfolding tk using sch em q by simp
  show ?thesis
    unfolding image_url_shape_def
    using tk sch el q all by blast
qed

lemma match_all_shape:
  "\<forall>c. cls c \<longrightarrow> meta_class c \<Longrightarrow> u \<in> set (match_all cls wq s) \<Longrightarrow> image_url_shape u"
proof (induction cls wq s rule: match_all.induct)
  case (1 cls wq)
  then show ?case by simp
next
  case (2 cls wq c s)
  show ?case
  proof (cases "match_at cls wq (c # s)")
    case None
    with 2 show ?thesis by simp
  next
    case (Some n)
    with "2.prems"(2) consider "u = take n (c # s)" | "u \<in> set (match_all cls wq (drop (n - 1) s))"
      by auto
    then show ?thesis
    proof cases
      case 1
      with match_at_shape [OF Some "2.prems"(1)] show ?thesis by simp
    next
      case 2
      with "2.IH"(2) [OF Some "2.prems"(1)] show ?thesis .
    qed
  qed
qed

lemma match_first_shape:
  assumes cls: "\<forall>c. cls c \<longrightarrow> meta_class c"
  shows "match_first cls wq s = Some u \<Longrightarrow> image_url_shape u"
proof (induction s)
  case Nil
  then show ?case by simp
next
  case (Cons c s)
  show ?case
  proof (cases "match_at cls wq (c # s)")
    case None
    with Cons show ?thesis by simp
  next
    case (Some n)
    with Cons.prems have "u = take n (c # s)" by simp
    with match_at_shape [OF Some cls] show ?thesis by simp
  qed
qed

lemma class_meta:
  "\<forall>c. script_class c \<longrightarrow> meta_class c" "\<forall>c. html_class c \<longrightarrow> meta_class c"
  "\<forall>c. meta_class c \<longrightarrow> meta_class c"
  by (simp_all add: script_class_def html_class_def meta_class_def)

lemma script_urls_shape: "u \<in> set (script_urls s) \<Longrightarrow> image_url_shape u"
proof -
  let ?content = "if fst s \<noteq> [] then fst s else snd s"
  have "set (script_urls s) \<subseteq> set (match_all script_class True ?content)"
    by (auto simp: script_urls_def Let_def)
  moreover assume "u \<in> set (script_urls s)"
  ultimately have "u \<in> set (match_all script_class True ?content)" by blast
  then show ?thesis by (rule match_all_shape [OF class_meta(1)])
qed

lemma html_urls_shape: "u \<in> set (html_urls t) \<Longrightarrow> image_url_shape u"
proof -
  assume "u \<in> set (html_urls t)"
  then have "u \<in> set (match_all html_class True t)" by (simp add: html_urls_def)
  then show ?thesis by (rule match_all_shape [OF class_meta(2)])
qed

lemma meta_urls_shape: "u \<in> set (meta_urls m) \<Longrightarrow> image_url_shape u"
proof -
  assume u: "u \<in> set (meta_urls m)"
  let ?content = "case m of None \<Rightarrow> [] | Some c \<Rightarrow> c"
  let ?cond = "str_includes ?content (asc ''http'') \<and>
         (str_includes ?content (asc ''.jpg'') \<or> str_includes ?content (asc ''.png''))"
  have eq: "meta_urls m =
     (if ?cond then (case match_first meta_class False ?content of
              None \<Rightarrow> []
            | Some url \<Rightarrow> if meta_url_kept url then [url] else [])
      else [])"
    by (simp add: meta_urls_def Let_def)
  have "match_first meta_class False ?content = Some u"
  proof (cases ?cond)
    case False
    with u eq show ?thesis by simp
  next
    case True
    show ?thesis
    proof (cases "match_first meta_class False ?content")
      case None
      with u eq True show ?thesis by simp
    next
      case (Some url)
      show ?thesis
      proof (cases "meta_url_kept url")
        case True
        with u eq \<open>?cond\<close> Some show ?thesis by simp
      next
        case False
        with u eq \<open>?cond\<close> Some show ?thesis by simp
      qed
    qed
  qed
  then show ?thesis by (rule match_first_shape [OF class_meta(3)])
qed

lemma full_res_urls_shape: "u \<in> set (full_res_urls d) \<Longrightarrow> image_url_shape u"
  by (auto simp: full_res_urls_def dest: script_urls_shape meta_urls_shape html_urls_shape)

lemma distinct_insert_sorted [simp]:
  "distinct (insert_sorted cmp x ys) \<longleftrightarrow> x \<notin> set ys \<and> distinct ys"
  by (induction ys) auto

lemma js_sort_Nil: "js_sort cmp [] = []"
  by (simp add: js_sort_def)

lemma js_sort_Cons: "js_sort cmp (x # xs) = insert_sorted cmp x (js_sort cmp xs)"
  by (simp add: js_sort_def)

lemma distinct_js_sort: "distinct xs \<Longrightarrow> distinct (js_sort cmp xs)"
  by (induction xs) (simp_all add: js_sort_Nil js_sort_Cons)

lemma sorted_insert_sorted:
  "sorted_wrt (\<lambda>a b. js_length b \<le> js_length a) ys \<Longrightarrow>
     sorted_wrt (\<lambda>a b. js_length b \<le> js_length a) (insert_sorted by_length_desc x ys)"
  by (induction ys) (auto simp: by_length_desc_def)

lemma sorted_js_sort:
  "sorted_wrt (\<lambda>a b. js_length b \<le> js_length a) (js_sort by_length_desc xs)"
  by (induction xs) (simp_all add: js_sort_Nil js_sort_Cons sorted_insert_sorted)

lemma filter_insert_sorted:
  "filter (\<lambda>u. js_length u = n) (insert_sorted by_length_desc x ys) =
     (if js_length x = n then x # filter (\<lambda>u. js_length u = n) ys
      else filter (\<lambda>u. js_length u = n) ys)"
  by (induction ys) (auto simp: by_length_desc_def)

lemma filter_js_sort:
  "filter (\<lambda>u. js_length u = n) (js_sort by_length_desc xs) = filter (\<lambda>u. js_length u = n) xs"
  by (induction xs) (simp_all add: js_sort_Nil js_sort_Cons filter_insert_sorted)

text \<open>
  C4, as the code has it. Every URL that the text scan returns has the shape of an
  image URL and does not hold \<open>encrypted-tbn\<close>; the list is duplicate-free and sorted
  by length (in UTF-16 code units) in descending order; and the URLs of one length
  stand in the order of their first occurrence in the scan. Only the URLs from script
  elements are tested against the other patterns of the blocklist.
\<close>

theorem text_scan_ranked:
  "(\<forall>u \<in> set (text_scan d). image_url_shape u \<and> \<not> sublist (asc ''encrypted-tbn'') u) \<and>
   distinct (text_scan d) \<and>
   sorted_wrt (\<lambda>a b. js_length b \<le> js_length a) (text_scan d) \<and>
   (\<forall>n. filter (\<lambda>u. js_length u = n) (text_scan d)
          = filter (\<lambda>u. js_length u = n) (first_occurrences (full_res_urls d)))"
proof -
  have "\<forall>u \<in> set (text_scan d). image_url_shape u \<and> \<not> sublist (asc ''encrypted-tbn'') u"
    using full_res_urls_shape full_res_urls_no_tbn by (auto simp: set_text_scan)
  moreover have "distinct (text_scan d)"
    by (simp add: text_scan_def fromkeys_Nil_first_occurrences distinct_js_sort)
  moreover have "sorted_wrt (\<lambda>a b. js_length b \<le> js_length a) (text_scan d)"
    by (simp add: text_scan_def sorted_js_sort)
  moreover have "\<forall>n. filter (\<lambda>u. js_length u = n) (text_scan d)
                   = filter (\<lambda>u. js_length u = n) (first_occurrences (full_res_urls d))"
    by (simp add: text_scan_def fromkeys_Nil_first_occurrences filter_js_sort)
  ultimately show ?thesis by blast
qed

text \<open>An instance: the text scan of the first example page.\<close>

theorem text_scan_ranked_witness:
  "text_scan (doc meta_page) = [asc ''http://a/b%20c.jpg''] \<and>
   image_url_shape (asc ''http://a/b%20c.jpg'') \<and>
   \<not> sublist (asc ''encrypted-tbn'') (asc ''http://a/b%20c.jpg'')"
  using text_scan_ranked [of "doc meta_page"] text_scan_meta_page by simp

text \<open>
  The text scan can return a URL that the pattern filter blocks: the URL of a \<open>meta\<close>
  element is only tested for \<open>encrypted-tbn\<close>.
\<close>

theorem text_scan_blocked:
  "text_scan (doc logo_page) = [asc ''http://a/logo.jpg''] \<and>
   asc ''logo'' \<in> set default_blocklist \<and>
   sublist (asc ''logo'') (asc ''http://a/logo.jpg'')"
  using text_scan_logo_page by (simp add: default_blocklist_def asc_def sublist_Cons_right)

end
